theory Spec2Isabelle
  imports Main "HOL-Library.Word" "HOL-Library.Sublist" "HOL-Library.Log_Nat"
begin

section \<open>Data model\<close>

text \<open>
  A JavaScript string is a sequence of UTF-16 code units; \<open>length\<close>, \<open>charAt\<close>,
  \<open>slice\<close>, \<open>split('')\<close> and indexing all count code units. A Buffer is a
  sequence of bytes.
\<close>

type_synonym code_unit = "16 word"
type_synonym jsstring = "code_unit list"
type_synonym byte = "8 word"

text \<open>
  The three error classes of the library, each carrying its message, and the built-in
  \<open>SyntaxError\<close> of the language, which the \<open>RegExp\<close> constructor throws for a
  malformed pattern and which no function of the library catches.
\<close>

datatype error =
    StringUtilError string
  | ValidationError string
  | CryptoError string
  | SyntaxError

text \<open>
  What a caller can hand to a parameter typed \<open>string\<close> at run time:
  \<open>null\<close>, \<open>undefined\<close>, a string, or a value of any other type.
\<close>

datatype jsvalue = JsNull | JsUndefined | JsString jsstring | JsOther

text \<open>An ASCII literal as a JavaScript string.\<close>

definition ascii :: "string \<Rightarrow> jsstring" where
  "ascii s = map (\<lambda>c. of_nat (of_char c)) s"

definition validateString :: "jsvalue \<Rightarrow> string \<Rightarrow> error + jsstring" where
  "validateString str functionName =
     (case str of
        JsNull \<Rightarrow> Inl (ValidationError (functionName @ '': Input cannot be null or undefined''))
      | JsUndefined \<Rightarrow> Inl (ValidationError (functionName @ '': Input cannot be null or undefined''))
      | JsOther \<Rightarrow> Inl (ValidationError (functionName @ '': Input must be a string''))
      | JsString s \<Rightarrow> Inr s)"

section \<open>capitalize\<close>

text \<open>
  \<^verbatim>\<open>str.charAt(i)\<close>: the code unit at index \<open>i\<close> as a one-unit string, the empty
  string when \<open>i\<close> is out of range.
\<close>

definition charAt :: "jsstring \<Rightarrow> nat \<Rightarrow> jsstring" where
  "charAt s i = (if i < length s then [s ! i] else [])"

text \<open>
  \<^verbatim>\<open>toUpperCase\<close> maps every code point through the Unicode upper-case table; one
  code unit may become several (U+00DF becomes \<open>SS\<close>). On ASCII the table is written
  out here. The part of the table for the other code units belongs to the platform and
  is the parameter \<open>tbl\<close>. The model covers the strings \<open>capitalize\<close> passes, which
  hold a single code unit (a surrogate on its own is left as it is by the platform).
\<close>

definition upper_ascii :: "code_unit \<Rightarrow> code_unit" where
  "upper_ascii c = (if 0x61 \<le> c \<and> c \<le> 0x7A then c - 0x20 else c)"

definition toUpperCase :: "(code_unit \<Rightarrow> jsstring) \<Rightarrow> jsstring \<Rightarrow> jsstring" where
  "toUpperCase tbl s = concat (map (\<lambda>c. if c < 0x80 then [upper_ascii c] else tbl c) s)"

text \<open>
  \<^verbatim>\<open>
  public capitalize(str: string): string {
    str = validateString(str, 'capitalize');
    if (str.length === 0) return str;
    return str.charAt(0).toUpperCase() + str.slice(1);
  }
  \<close>
\<close>

definition capitalize :: "(code_unit \<Rightarrow> jsstring) \<Rightarrow> jsvalue \<Rightarrow> error + jsstring" where
  "capitalize tbl str =
     (case validateString str ''capitalize'' of
        Inl e \<Rightarrow> Inl e
      | Inr s \<Rightarrow>
          if length s = 0 then Inr s
          else Inr (toUpperCase tbl (charAt s 0) @ drop 1 s))"

text \<open>
  What idempotence needs of the platform's table: upper-casing a non-ASCII code unit
  gives a non-empty string whose first unit is its own upper case. The Unicode table
  has this property; \<open>latin1_upper\<close> is its part for U+0080..U+00FF.
\<close>

definition upper_stable :: "(code_unit \<Rightarrow> jsstring) \<Rightarrow> bool" where
  "upper_stable tbl \<longleftrightarrow>
     (\<forall>c. 0x80 \<le> c \<longrightarrow> (case tbl c of [] \<Rightarrow> False | d # ds \<Rightarrow> toUpperCase tbl [d] = [d]))"

definition latin1_upper :: "code_unit \<Rightarrow> jsstring" where
  "latin1_upper c =
     (if c = 0xDF then [0x53, 0x53]
      else if c = 0xB5 then [0x39C]
      else if c = 0xFF then [0x178]
      else if 0xE0 \<le> c \<and> c \<le> 0xFE \<and> c \<noteq> 0xF7 then [c - 0x20]
      else [c])"

section \<open>trimExtraSpaces\<close>

text \<open>
  The class \<^verbatim>\<open>\s\<close> of a regular expression, which is also the set of code units
  that \<^verbatim>\<open>trim()\<close> strips: WhiteSpace and LineTerminator of ECMAScript.
\<close>

definition is_space :: "code_unit \<Rightarrow> bool" where
  "is_space c \<longleftrightarrow>
     (0x9 \<le> c \<and> c \<le> 0xD) \<or> c = 0x20 \<or> c = 0xA0 \<or> c = 0x1680 \<or>
     (0x2000 \<le> c \<and> c \<le> 0x200A) \<or> c = 0x2028 \<or> c = 0x2029 \<or> c = 0x202F \<or>
     c = 0x205F \<or> c = 0x3000 \<or> c = 0xFEFF"

text \<open>
  \<^verbatim>\<open>str.replace(/\s+/g, rep)\<close> for a replacement \<open>rep\<close> that is inserted as it is:
  every maximal run of whitespace becomes one copy of \<open>rep\<close>.
\<close>

function replace_spaces :: "jsstring \<Rightarrow> jsstring \<Rightarrow> jsstring" where
  "replace_spaces rep [] = []"
| "replace_spaces rep (c # cs) =
     (if is_space c then rep @ replace_spaces rep (dropWhile is_space cs)
      else c # replace_spaces rep cs)"
  by pat_completeness auto
termination
  by (relation "measure (\<lambda>(rep, s). length s)") (auto simp: less_Suc_eq_le length_dropWhile_le)

text \<open>\<^verbatim>\<open>str.trim()\<close>\<close>

definition trim :: "jsstring \<Rightarrow> jsstring" where
  "trim s = rev (dropWhile is_space (rev (dropWhile is_space s)))"

text \<open>
  \<^verbatim>\<open>
  public trimExtraSpaces(str: string): string {
    str = validateString(str, 'trimExtraSpaces');
    return str.replace(/\s+/g, ' ').trim();
  }
  \<close>
\<close>

definition trimExtraSpaces :: "jsvalue \<Rightarrow> error + jsstring" where
  "trimExtraSpaces str =
     (case validateString str ''trimExtraSpaces'' of
        Inl e \<Rightarrow> Inl e
      | Inr s \<Rightarrow> Inr (trim (replace_spaces [0x20] s)))"

text \<open>
  The shape of a result: every whitespace unit is a single U+0020 that is not followed
  by whitespace.
\<close>

fun single_spaced :: "jsstring \<Rightarrow> bool" where
  "single_spaced [] = True"
| "single_spaced (c # cs) =
     ((is_space c \<longrightarrow> c = 0x20 \<and> (cs = [] \<or> \<not> is_space (hd cs))) \<and> single_spaced cs)"

section \<open>isPalindrome\<close>

text \<open>The character class \<^verbatim>\<open>[a-zA-Z0-9]\<close>.\<close>

definition is_alnum :: "code_unit \<Rightarrow> bool" where
  "is_alnum c \<longleftrightarrow> (0x61 \<le> c \<and> c \<le> 0x7A) \<or> (0x41 \<le> c \<and> c \<le> 0x5A) \<or> (0x30 \<le> c \<and> c \<le> 0x39)"

text \<open>
  \<^verbatim>\<open>toLowerCase\<close> on a string of ASCII letters and digits, which is all that
  \<open>cleanStr\<close> can hold: \<open>A\<close>..\<open>Z\<close> move to \<open>a\<close>..\<open>z\<close>, everything else stays.
\<close>

definition lower_ascii :: "code_unit \<Rightarrow> code_unit" where
  "lower_ascii c = (if 0x41 \<le> c \<and> c \<le> 0x5A then c + 0x20 else c)"

text \<open>
  \<^verbatim>\<open>
  public isPalindrome(str: string, caseSensitive = false): boolean {
    str = validateString(str, 'isPalindrome');
    const cleanStr = str.replace(/[^a-zA-Z0-9]/g, '');
    const processedStr = caseSensitive ? cleanStr : cleanStr.toLowerCase();
    return processedStr === processedStr.split('').reverse().join('');
  }
  \<close>
  The optional flag is \<open>None\<close> when the caller leaves it out.
\<close>

definition isPalindrome :: "jsvalue \<Rightarrow> bool option \<Rightarrow> error + bool" where
  "isPalindrome str caseSensitive =
     (case validateString str ''isPalindrome'' of
        Inl e \<Rightarrow> Inl e
      | Inr s \<Rightarrow>
          (let cleanStr = filter is_alnum s;
               processedStr = (if caseSensitive = Some True then cleanStr else map lower_ascii cleanStr)
           in Inr (processedStr = rev processedStr)))"

section \<open>randomString\<close>




section \<open>Buffers: UTF-8, base64 and hex\<close>

text \<open>
  The conversions between strings and Buffers are the platform's. They are written on
  numbers (code units and bytes as naturals) and wrapped into the word types below.
\<close>

subsection \<open>UTF-8\<close>

text \<open>
  \<^verbatim>\<open>Buffer.from(str)\<close> and \<^verbatim>\<open>Buffer.from(str, 'utf8')\<close>: a surrogate pair is one code
  point of four bytes; a surrogate without its partner is replaced by U+FFFD, the bytes
  EF BF BD.
\<close>

fun utf8_encode_units :: "nat list \<Rightarrow> nat list" where
  "utf8_encode_units [] = []"
| "utf8_encode_units (u # us) =
     (if u < 0x80 then u # utf8_encode_units us
      else if u < 0x800 then (0xC0 + u div 64) # (0x80 + u mod 64) # utf8_encode_units us
      else if 0xD800 \<le> u \<and> u < 0xDC00 then
        (case us of
           [] \<Rightarrow> [0xEF, 0xBF, 0xBD]
         | v # vs \<Rightarrow>
             if 0xDC00 \<le> v \<and> v < 0xE000 then
               (let cp = 0x10000 + (u - 0xD800) * 0x400 + (v - 0xDC00) in
                  (0xF0 + cp div 0x40000) # (0x80 + cp div 0x1000 mod 64) #
                  (0x80 + cp div 64 mod 64) # (0x80 + cp mod 64) # utf8_encode_units vs)
             else 0xEF # 0xBF # 0xBD # utf8_encode_units us)
      else if 0xDC00 \<le> u \<and> u < 0xE000 then 0xEF # 0xBF # 0xBD # utf8_encode_units us
      else (0xE0 + u div 0x1000) # (0x80 + u div 64 mod 64) # (0x80 + u mod 64) #
           utf8_encode_units us)"

definition Buffer_from_utf8 :: "jsstring \<Rightarrow> byte list" where
  "Buffer_from_utf8 s = map of_nat (utf8_encode_units (map unat s))"

text \<open>
  \<^verbatim>\<open>buf.toString()\<close> and \<^verbatim>\<open>buf.toString('utf8')\<close>: never fails; every maximal
  ill-formed part of the input becomes one U+FFFD and decoding goes on at the byte
  that broke the sequence. A code point above U+FFFF comes out as a surrogate pair.
\<close>

definition is_cont :: "nat \<Rightarrow> bool" where
  "is_cont b \<longleftrightarrow> 0x80 \<le> b \<and> b \<le> 0xBF"

fun utf8_decode_bytes :: "nat list \<Rightarrow> nat list" where
  "utf8_decode_bytes [] = []"
| "utf8_decode_bytes (b # bs) =
     (if b < 0x80 then b # utf8_decode_bytes bs
      else if 0xC2 \<le> b \<and> b \<le> 0xDF then
        (case bs of
           [] \<Rightarrow> [0xFFFD]
         | c # cs \<Rightarrow>
             if is_cont c then ((b - 0xC0) * 64 + (c - 0x80)) # utf8_decode_bytes cs
             else 0xFFFD # utf8_decode_bytes bs)
      else if 0xE0 \<le> b \<and> b \<le> 0xEF then
        (case bs of
           [] \<Rightarrow> [0xFFFD]
         | c # cs \<Rightarrow>
             if (if b = 0xE0 then 0xA0 else 0x80) \<le> c \<and> c \<le> (if b = 0xED then 0x9F else 0xBF) then
               (case cs of
                  [] \<Rightarrow> [0xFFFD]
                | d # ds \<Rightarrow>
                    if is_cont d
                    then ((b - 0xE0) * 0x1000 + (c - 0x80) * 64 + (d - 0x80)) # utf8_decode_bytes ds
                    else 0xFFFD # utf8_decode_bytes cs)
             else 0xFFFD # utf8_decode_bytes bs)
      else if 0xF0 \<le> b \<and> b \<le> 0xF4 then
        (case bs of
           [] \<Rightarrow> [0xFFFD]
         | c # cs \<Rightarrow>
             if (if b = 0xF0 then 0x90 else 0x80) \<le> c \<and> c \<le> (if b = 0xF4 then 0x8F else 0xBF) then
               (case cs of
                  [] \<Rightarrow> [0xFFFD]
                | d # ds \<Rightarrow>
                    if is_cont d then
                      (case ds of
                         [] \<Rightarrow> [0xFFFD]
                       | e # es \<Rightarrow>
                           if is_cont e then
                             (let cp = (b - 0xF0) * 0x40000 + (c - 0x80) * 0x1000 +
                                       (d - 0x80) * 64 + (e - 0x80)
                              in (0xD800 + (cp - 0x10000) div 0x400) #
                                 (0xDC00 + (cp - 0x10000) mod 0x400) # utf8_decode_bytes es)
                           else 0xFFFD # utf8_decode_bytes ds)
                    else 0xFFFD # utf8_decode_bytes cs)
             else 0xFFFD # utf8_decode_bytes bs)
      else 0xFFFD # utf8_decode_bytes bs)"

definition toString_utf8 :: "byte list \<Rightarrow> jsstring" where
  "toString_utf8 buf = map of_nat (utf8_decode_bytes (map unat buf))"

text \<open>A string is well formed when every surrogate is half of a pair.\<close>

fun well_formed_units :: "nat list \<Rightarrow> bool" where
  "well_formed_units [] = True"
| "well_formed_units (u # us) =
     (if 0xD800 \<le> u \<and> u < 0xDC00 then
        (case us of [] \<Rightarrow> False | v # vs \<Rightarrow> 0xDC00 \<le> v \<and> v < 0xE000 \<and> well_formed_units vs)
      else if 0xDC00 \<le> u \<and> u < 0xE000 then False
      else well_formed_units us)"

definition well_formed :: "jsstring \<Rightarrow> bool" where
  "well_formed s = well_formed_units (map unat s)"

subsection \<open>base64\<close>

text \<open>
  \<^verbatim>\<open>buf.toString('base64')\<close>: three bytes become four characters of the standard
  alphabet; a last group of one or two bytes is padded with \<open>=\<close> to four characters.
\<close>

definition b64_char :: "nat \<Rightarrow> nat" where
  "b64_char n =
     (if n < 26 then 0x41 + n
      else if n < 52 then 0x61 + (n - 26)
      else if n < 62 then 0x30 + (n - 52)
      else if n = 62 then 0x2B
      else 0x2F)"

fun sextets :: "nat list \<Rightarrow> nat list" where
  "sextets (a # b # c # rest) =
     (a div 4) # (a mod 4 * 16 + b div 16) # (b mod 16 * 4 + c div 64) # (c mod 64) # sextets rest"
| "sextets [a, b] = [a div 4, a mod 4 * 16 + b div 16, b mod 16 * 4]"
| "sextets [a] = [a div 4, a mod 4 * 16]"
| "sextets [] = []"

definition b64_encode_bytes :: "nat list \<Rightarrow> nat list" where
  "b64_encode_bytes bs =
     map b64_char (sextets bs) @ replicate ((3 - length bs mod 3) mod 3) 0x3D"

definition toString_base64 :: "byte list \<Rightarrow> jsstring" where
  "toString_base64 buf = map of_nat (b64_encode_bytes (map unat buf))"

text \<open>
  \<^verbatim>\<open>Buffer.from(str, 'base64')\<close> never fails. It stops at the first \<open>=\<close>, skips what
  is no base64 character (the URL-safe \<open>-\<close> and \<open>_\<close> count as \<open>+\<close> and \<open>/\<close>), and
  turns every four characters into three bytes; two or three characters left over give
  one or two bytes, a single one gives none. The length need not be a multiple of four.
\<close>

definition unbase64 :: "nat \<Rightarrow> nat option" where
  "unbase64 c =
     (if 0x41 \<le> c \<and> c \<le> 0x5A then Some (c - 0x41)
      else if 0x61 \<le> c \<and> c \<le> 0x7A then Some (c - 0x61 + 26)
      else if 0x30 \<le> c \<and> c \<le> 0x39 then Some (c - 0x30 + 52)
      else if c = 0x2B \<or> c = 0x2D then Some 62
      else if c = 0x2F \<or> c = 0x5F then Some 63
      else None)"

fun octets :: "nat list \<Rightarrow> nat list" where
  "octets (p # q # r # s # rest) =
     (p * 4 + q div 16) # (q mod 16 * 16 + r div 4) # (r mod 4 * 64 + s) # octets rest"
| "octets [p, q, r] = [p * 4 + q div 16, q mod 16 * 16 + r div 4]"
| "octets [p, q] = [p * 4 + q div 16]"
| "octets [p] = []"
| "octets [] = []"

definition b64_decode_chars :: "nat list \<Rightarrow> nat list" where
  "b64_decode_chars cs = octets (List.map_filter unbase64 (takeWhile (\<lambda>c. c \<noteq> 0x3D) cs))"

definition Buffer_from_base64 :: "jsstring \<Rightarrow> byte list" where
  "Buffer_from_base64 s = map of_nat (b64_decode_chars (map unat s))"

subsection \<open>hex\<close>

text \<open>\<^verbatim>\<open>buf.toString('hex')\<close>: two lower-case hexadecimal digits for every byte.\<close>

definition hex_digit :: "nat \<Rightarrow> nat" where
  "hex_digit n = (if n < 10 then 0x30 + n else 0x61 + (n - 10))"

definition toString_hex :: "byte list \<Rightarrow> jsstring" where
  "toString_hex buf =
     concat (map (\<lambda>b. [of_nat (hex_digit (unat b div 16)), of_nat (hex_digit (unat b mod 16))]) buf)"

section \<open>base64Encode and base64Decode\<close>

text \<open>
  \<^verbatim>\<open>
  public base64Encode(str: string): string {
    str = validateString(str, 'base64Encode');
    try {
      return Buffer.from(str).toString('base64');
    } catch (error) {
      throw new StringUtilError('Failed to encode string to base64');
    }
  }
  \<close>
  Neither conversion can fail, so the handler is never entered.
\<close>

definition base64Encode :: "jsvalue \<Rightarrow> error + jsstring" where
  "base64Encode str =
     (case validateString str ''base64Encode'' of
        Inl e \<Rightarrow> Inl e
      | Inr s \<Rightarrow> Inr (toString_base64 (Buffer_from_utf8 s)))"

text \<open>
  The test \<^verbatim>\<open>/^[A-Za-z0-9+/]*={0,2}$/.test(str)\<close>: \<open>=\<close> is not in the class, so
  the string matches exactly when what follows its longest prefix of class characters
  is empty, \<open>=\<close> or \<open>==\<close>.
\<close>

definition is_b64_alphabet :: "nat \<Rightarrow> bool" where
  "is_b64_alphabet c \<longleftrightarrow>
     (0x41 \<le> c \<and> c \<le> 0x5A) \<or> (0x61 \<le> c \<and> c \<le> 0x7A) \<or> (0x30 \<le> c \<and> c \<le> 0x39) \<or>
     c = 0x2B \<or> c = 0x2F"

definition b64_test :: "jsstring \<Rightarrow> bool" where
  "b64_test s =
     (let rest = dropWhile is_b64_alphabet (map unat s)
      in rest = [] \<or> rest = [0x3D] \<or> rest = [0x3D, 0x3D])"

text \<open>
  \<^verbatim>\<open>
  public base64Decode(str: string): string {
    str = validateString(str, 'base64Decode');
    try {
      // Add validation for base64 format
      if (!/^[A-Za-z0-9+/]*={0,2}$/.test(str)) {
        throw new StringUtilError('Invalid base64 string');
      }
      return Buffer.from(str, 'base64').toString();
    } catch (error) {
      throw new StringUtilError('Invalid base64 string');
    }
  }
  \<close>
  The handler replaces whatever the block throws, the error of the failed test included.
\<close>

definition base64Decode :: "jsvalue \<Rightarrow> error + jsstring" where
  "base64Decode str =
     (case validateString str ''base64Decode'' of
        Inl e \<Rightarrow> Inl e
      | Inr s \<Rightarrow>
          (case (if \<not> b64_test s then Inl (StringUtilError ''Invalid base64 string'')
                 else Inr (toString_utf8 (Buffer_from_base64 s))) of
             Inl error \<Rightarrow> Inl (StringUtilError ''Invalid base64 string'')
           | Inr decoded \<Rightarrow> Inr decoded))"

section \<open>hashWithSalt and verifyHash\<close>

text \<open>
  \<^verbatim>\<open>str.split(sep)\<close> for a separator of one code unit: the pieces between its
  occurrences, in order; a string without the separator is the only piece.
\<close>

fun split_on :: "code_unit \<Rightarrow> jsstring \<Rightarrow> jsstring list" where
  "split_on sep [] = [[]]"
| "split_on sep (c # cs) =
     (if c = sep then [] # split_on sep cs
      else (case split_on sep cs of [] \<Rightarrow> [[c]] | p # ps \<Rightarrow> (c # p) # ps))"

text \<open>
  \<^verbatim>\<open>crypto.pbkdf2Sync(password, salt, iterations, keylen, 'sha512')\<close>. The key
  derivation itself is the platform's and is the parameter \<open>kdf\<close>, a function of the
  password bytes, the salt bytes, the iteration count and the key length that gives the
  derived key, or \<open>None\<close> when the call throws. A password or salt given as a string
  is turned into its UTF-8 bytes first.
\<close>

type_synonym kdf = "byte list \<Rightarrow> byte list \<Rightarrow> int \<Rightarrow> nat \<Rightarrow> byte list option"

definition pbkdf2Sync :: "kdf \<Rightarrow> jsstring \<Rightarrow> jsstring \<Rightarrow> int \<Rightarrow> nat \<Rightarrow> byte list option" where
  "pbkdf2Sync kdf password salt iterations keylen =
     kdf (Buffer_from_utf8 password) (Buffer_from_utf8 salt) iterations keylen"


text \<open>
  \<^verbatim>\<open>
  public async verifyHash(str: string, hashedStr: string): Promise<boolean> {
    str = validateString(str, 'verifyHash');
    hashedStr = validateString(hashedStr, 'verifyHash');
    try {
      const [salt, originalHash] = hashedStr.split(':');
      const hash = crypto.pbkdf2Sync(str, salt, 10, 64, 'sha512').toString('hex');
      return hash === originalHash;
    } catch (error) {
      throw new CryptoError('Failed to verify hash');
    }
  }
  \<close>
  The destructuring takes the first two pieces; \<open>originalHash\<close> is \<open>undefined\<close>
  (\<open>None\<close>) when there is no second piece, and a string is never equal to it. The
  salt is the first piece as it stands: nothing decodes or checks it.
\<close>

definition verifyHash :: "kdf \<Rightarrow> jsvalue \<Rightarrow> jsvalue \<Rightarrow> error + bool" where
  "verifyHash kdf str hashedStr =
     (case validateString str ''verifyHash'' of
        Inl e \<Rightarrow> Inl e
      | Inr s \<Rightarrow>
          (case validateString hashedStr ''verifyHash'' of
             Inl e \<Rightarrow> Inl e
           | Inr h \<Rightarrow>
               (case split_on 0x3A h of
                  [] \<Rightarrow> Inl (CryptoError ''Failed to verify hash'')
                | salt # rest \<Rightarrow>
                    (let originalHash = (case rest of [] \<Rightarrow> None | x # _ \<Rightarrow> Some x) in
                     case pbkdf2Sync kdf s salt 10 64 of
                       None \<Rightarrow> Inl (CryptoError ''Failed to verify hash'')
                     | Some key \<Rightarrow> Inr (Some (toString_hex key) = originalHash)))))"

text \<open>
  A stand-in for the platform's key derivation, to run the model on concrete inputs: it
  refuses an iteration count below one, as the platform does, and returns \<open>keylen\<close>
  bytes that depend on the password bytes, the salt bytes and the iteration count.
\<close>

definition sample_kdf :: kdf where
  "sample_kdf password salt iterations keylen =
     (if iterations < 1 then None
      else Some (take keylen (password @ salt @ replicate keylen (of_int iterations))))"


section \<open>similarity\<close>

text \<open>
  \<^verbatim>\<open>
  private levenshteinDistance(a: string, b: string): number {
    const matrix = Array.from({ length: a.length + 1 }, () => Array(b.length + 1).fill(0));
    for (let i = 0; i <= a.length; i++) matrix[i][0] = i;
    for (let j = 0; j <= b.length; j++) matrix[0][j] = j;
    for (let i = 1; i <= a.length; i++) {
      for (let j = 1; j <= b.length; j++) {
        matrix[i][j] = Math.min(
          matrix[i - 1][j] + 1,
          matrix[i][j - 1] + 1,
          matrix[i - 1][j - 1] + (a[i - 1] === b[j - 1] ? 0 : 1)
        );
      }
    }
    return matrix[a.length][b.length];
  }
  \<close>
  \<open>lev_cell a b i j\<close> is the value the loops leave in \<open>matrix[i][j]\<close>: column 0
  and row 0 hold the index, and every other cell is written once, from three cells that
  were written before it. The indices \<open>i - 1\<close> and \<open>j - 1\<close> are in range whenever
  \<open>i \<le> a.length\<close> and \<open>j \<le> b.length\<close>.
\<close>

fun lev_cell :: "jsstring \<Rightarrow> jsstring \<Rightarrow> nat \<Rightarrow> nat \<Rightarrow> nat" where
  "lev_cell a b i 0 = i"
| "lev_cell a b 0 (Suc j) = Suc j"
| "lev_cell a b (Suc i) (Suc j) =
     min (lev_cell a b i (Suc j) + 1)
       (min (lev_cell a b (Suc i) j + 1)
          (lev_cell a b i j + (if a ! i = b ! j then 0 else 1)))"

definition levenshteinDistance :: "jsstring \<Rightarrow> jsstring \<Rightarrow> nat" where
  "levenshteinDistance a b = lev_cell a b (length a) (length b)"

subsection \<open>Numbers\<close>

text \<open>
  A Number is an IEEE 754 double: not-a-number, an infinity, or a finite value, which
  is a rational. An arithmetic operation gives the exact result rounded to the nearest
  double, ties to the even significand. \<open>round_double\<close> does this for a result of any
  magnitude: 53 significant bits at the exponent of the value, and steps of
  \<open>2 powi -1074\<close> below \<open>2 powi -1022\<close>; \<open>to_double\<close> adds the overflow to an
  infinity, for a rounded value of exponent 1024 or more. The sign of a zero is not
  kept; nothing here depends on it.
\<close>

datatype jsnum = NaN | PosInfinity | NegInfinity | Num rat

definition round_half_even :: "rat \<Rightarrow> int" where
  "round_half_even y =
     (let f = \<lfloor>y\<rfloor>; r = y - of_int f
      in if r < 1 / 2 then f else if 1 / 2 < r then f + 1 else if even f then f else f + 1)"

text \<open>The exponent of a positive rational: the largest \<open>e\<close> with \<open>2\<^sup>e \<le> x\<close>.\<close>

definition floor_log2 :: "rat \<Rightarrow> int" where
  "floor_log2 x =
     (let (p, q) = quotient_of x; e = bitlen p - bitlen q
      in if 2 powi e \<le> x then e else e - 1)"

definition round_double :: "rat \<Rightarrow> rat" where
  "round_double x =
     (if x = 0 then 0
      else (let e = max (floor_log2 \<bar>x\<bar>) (- 1022); q = 2 powi (e - 52)
            in of_int (round_half_even (x / q)) * q))"

definition to_double :: "rat \<Rightarrow> jsnum" where
  "to_double x =
     (let r = round_double x
      in if r = 0 then Num 0
         else if 1024 \<le> floor_log2 \<bar>r\<bar> then (if 0 < r then PosInfinity else NegInfinity)
         else Num r)"

text \<open>
  \<^verbatim>\<open>distance / maxLength\<close>, the quotient of two lengths (non-negative integers, which
  are doubles exactly): \<open>0 / 0\<close> is NaN and a positive number over zero is Infinity.
\<close>

definition js_div_nat :: "nat \<Rightarrow> nat \<Rightarrow> jsnum" where
  "js_div_nat d m =
     (if m = 0 then (if d = 0 then NaN else PosInfinity)
      else to_double (of_nat d / of_nat m))"

text \<open>\<^verbatim>\<open>1 - x\<close>\<close>

definition js_one_minus :: "jsnum \<Rightarrow> jsnum" where
  "js_one_minus x =
     (case x of
        NaN \<Rightarrow> NaN
      | PosInfinity \<Rightarrow> NegInfinity
      | NegInfinity \<Rightarrow> PosInfinity
      | Num r \<Rightarrow> to_double (1 - r))"

text \<open>
  \<^verbatim>\<open>Number(x.toFixed(2))\<close>. For a finite \<open>x\<close> below \<open>10\<^sup>2\<^sup>1\<close> in magnitude,
  \<^verbatim>\<open>toFixed(2)\<close> writes \<open>n / 100\<close> for the integer \<open>n\<close> that brings it closest to the
  exact value of \<open>x\<close>, the larger \<open>n\<close> of two equally close ones (the sign is set
  aside first), and \<^verbatim>\<open>Number\<close> reads the decimal back as the nearest double. Larger
  values, NaN and the infinities are written and read back as they are.
\<close>

definition js_toFixed2_Number :: "jsnum \<Rightarrow> jsnum" where
  "js_toFixed2_Number x =
     (case x of
        Num r \<Rightarrow>
          if 10 ^ 21 \<le> \<bar>r\<bar> then Num r
          else if 0 \<le> r then to_double (of_int \<lfloor>r * 100 + 1 / 2\<rfloor> / 100)
          else to_double (- of_int \<lfloor>- r * 100 + 1 / 2\<rfloor> / 100)
      | other \<Rightarrow> other)"

text \<open>\<^verbatim>\<open>x * 100\<close>\<close>

definition js_times_100 :: "jsnum \<Rightarrow> jsnum" where
  "js_times_100 x = (case x of Num r \<Rightarrow> to_double (r * 100) | other \<Rightarrow> other)"

text \<open>
  \<^verbatim>\<open>
  public similarity(str1: string, str2: string): number {
    str1 = validateString(str1, 'similarity');
    str2 = validateString(str2, 'similarity');
    const distance = this.levenshteinDistance(str1, str2);
    const maxLength = Math.max(str1.length, str2.length);
    return Number((1 - distance / maxLength).toFixed(2)) * 100;
  }
  \<close>
\<close>

definition similarity :: "jsvalue \<Rightarrow> jsvalue \<Rightarrow> error + jsnum" where
  "similarity str1 str2 =
     (case validateString str1 ''similarity'' of
        Inl e \<Rightarrow> Inl e
      | Inr s1 \<Rightarrow>
          (case validateString str2 ''similarity'' of
             Inl e \<Rightarrow> Inl e
           | Inr s2 \<Rightarrow>
               (let distance = levenshteinDistance s1 s2;
                    maxLength = max (length s1) (length s2)
                in Inr (js_times_100 (js_toFixed2_Number (js_one_minus (js_div_nat distance maxLength)))))))"

section \<open>slugify\<close>

text \<open>
  \<^verbatim>\<open>SlugifyOptions\<close>. The model covers separators of one code unit, which are the
  default \<open>-\<close> and every separator the properties below speak of; \<open>None\<close> is an
  option the caller left out.
\<close>

record SlugifyOptions =
  slug_lowercase :: "bool option"
  slug_separator :: "code_unit option"
  slug_removeStopWords :: "bool option"

text \<open>
  \<^verbatim>\<open>toLowerCase\<close> on a whole string: on a string of ASCII units it moves \<open>A\<close>..\<open>Z\<close>
  to \<open>a\<close>..\<open>z\<close>; what it does to any other string is in the Unicode tables of the
  platform, the parameter \<open>lower\<close>.
\<close>

definition toLowerCase :: "(jsstring \<Rightarrow> jsstring) \<Rightarrow> jsstring \<Rightarrow> jsstring" where
  "toLowerCase lower s = (if list_all (\<lambda>c. c < 0x80) s then map lower_ascii s else lower s)"

text \<open>\<^verbatim>\<open>pieces.join(sep)\<close> for a separator of one code unit.\<close>

fun join_with :: "code_unit \<Rightarrow> jsstring list \<Rightarrow> jsstring" where
  "join_with sep [] = []"
| "join_with sep [p] = p"
| "join_with sep (p # q # ps) = p @ sep # join_with sep (q # ps)"

definition stopWords :: "jsstring list" where
  "stopWords = [ascii ''a'', ascii ''an'', ascii ''the'', ascii ''and'', ascii ''or'', ascii ''but'']"

text \<open>The class \<^verbatim>\<open>\w\<close> and the line terminators, which \<^verbatim>\<open>.\<close> does not match.\<close>

definition is_word :: "code_unit \<Rightarrow> bool" where
  "is_word c \<longleftrightarrow> is_alnum c \<or> c = 0x5F"

definition is_line_terminator :: "code_unit \<Rightarrow> bool" where
  "is_line_terminator c \<longleftrightarrow> c = 0xA \<or> c = 0xD \<or> c = 0x2028 \<or> c = 0x2029"

text \<open>
  The two patterns that slugify builds from the separator \<open>c\<close> by interpolation,
  \<^verbatim>\<open>new RegExp(`${separator}+`, 'g')\<close> and
  \<^verbatim>\<open>new RegExp(`^${separator}|${separator}$`, 'g')\<close>, read as the language reads the
  sources \<open>c+\<close> and \<open>^c|c$\<close>:
  \<^item> for \<open>^ $ * + ? ( ) [ |\<close> the first source is malformed (nothing to repeat, an
    unterminated group or class, an unmatched parenthesis) and the constructor throws;
  \<^item> for \<open>.\<close> the patterns are "one or more characters that are no line terminators"
    and "such a character at the start, or one at the end";
  \<^item> for the backslash the sources are \<open>\+\<close>, a literal plus sign, and \<open>^\|\$\<close>, the
    two characters \<open>|$\<close> at the start;
  \<^item> every other code unit stands for itself.
\<close>

datatype separator_pattern = Malformed | AnyCharacter | Escaping | Literal

definition separator_pattern :: "code_unit \<Rightarrow> separator_pattern" where
  "separator_pattern c =
     (if c = 0x5E \<or> c = 0x24 \<or> c = 0x2A \<or> c = 0x2B \<or> c = 0x3F \<or> c = 0x28 \<or> c = 0x29 \<or>
         c = 0x5B \<or> c = 0x7C then Malformed
      else if c = 0x2E then AnyCharacter
      else if c = 0x5C then Escaping
      else Literal)"

text \<open>
  \<^verbatim>\<open>s.replace(/p+/g, rep)\<close> for a pattern \<open>p\<close> that matches single characters: every
  maximal run of matching characters becomes \<open>rep\<close>.
\<close>

function replace_runs :: "(code_unit \<Rightarrow> bool) \<Rightarrow> jsstring \<Rightarrow> jsstring \<Rightarrow> jsstring" where
  "replace_runs P rep [] = []"
| "replace_runs P rep (c # cs) =
     (if P c then rep @ replace_runs P rep (dropWhile P cs)
      else c # replace_runs P rep cs)"
  by pat_completeness auto
termination
  by (relation "measure (\<lambda>(P, rep, s). length s)") (auto simp: less_Suc_eq_le length_dropWhile_le)

text \<open>
  \<^verbatim>\<open>s.replace(/^p|p$/g, '')\<close> for such a pattern: a matching first character goes, and
  then a matching last character of what is left.
\<close>

definition strip_ends :: "(code_unit \<Rightarrow> bool) \<Rightarrow> jsstring \<Rightarrow> jsstring" where
  "strip_ends P s =
     (let s1 = (case s of [] \<Rightarrow> [] | c # cs \<Rightarrow> if P c then cs else s)
      in if s1 \<noteq> [] \<and> P (last s1) then butlast s1 else s1)"

text \<open>The last two replacements of slugify for the separator \<open>c\<close>.\<close>

definition collapse_and_strip :: "code_unit \<Rightarrow> jsstring \<Rightarrow> error + jsstring" where
  "collapse_and_strip c s =
     (case separator_pattern c of
        Malformed \<Rightarrow> Inl SyntaxError
      | AnyCharacter \<Rightarrow>
          Inr (strip_ends (\<lambda>x. \<not> is_line_terminator x)
                 (replace_runs (\<lambda>x. \<not> is_line_terminator x) [c] s))
      | Escaping \<Rightarrow>
          (let t = map (\<lambda>x. if x = 0x2B then c else x) s
           in Inr (if take 2 t = [0x7C, 0x24] then drop 2 t else t))
      | Literal \<Rightarrow> Inr (strip_ends (\<lambda>x. x = c) (replace_runs (\<lambda>x. x = c) [c] s)))"

text \<open>
  \<^verbatim>\<open>
  public slugify(str: string, options: SlugifyOptions = {}): string {
    str = validateString(str, 'slugify');
    const { lowercase = true, separator = '-', removeStopWords = false } = options;
    let result = str;
    if (lowercase) {
      result = result.toLowerCase();
    }
    if (removeStopWords) {
      const stopWords = ['a', 'an', 'the', 'and', 'or', 'but'];
      result = result.split(' ')
        .filter(word => !stopWords.includes(word.toLowerCase()))
        .join(' ');
    }
    return result
      .replace(/[^\w\s-]/g, '')  // Remove special characters except whitespace and hyphens
      .replace(/\s+/g, separator) // Replace whitespace with separator
      .replace(new RegExp(`${separator}+`, 'g'), separator) // Remove multiple separators
      .replace(new RegExp(`^${separator}|${separator}$`, 'g'), ''); // Remove leading/trailing separators
  }
  \<close>
  A replacement string of one code unit is inserted as it is.
\<close>

definition slugify ::
  "(jsstring \<Rightarrow> jsstring) \<Rightarrow> jsvalue \<Rightarrow> SlugifyOptions \<Rightarrow> error + jsstring" where
  "slugify lower str options =
     (case validateString str ''slugify'' of
        Inl e \<Rightarrow> Inl e
      | Inr s \<Rightarrow>
          (let separator = (case slug_separator options of None \<Rightarrow> 0x2D | Some c \<Rightarrow> c);
               r1 = (if slug_lowercase options \<noteq> Some False then toLowerCase lower s else s);
               r2 = (if slug_removeStopWords options = Some True
                     then join_with 0x20
                            (filter (\<lambda>word. toLowerCase lower word \<notin> set stopWords) (split_on 0x20 r1))
                     else r1);
               r3 = filter (\<lambda>c. is_word c \<or> is_space c \<or> c = 0x2D) r2;
               r4 = replace_spaces [separator] r3
           in collapse_and_strip separator r4))"

section \<open>Properties of capitalize\<close>

lemma upper_ascii_idem: "upper_ascii (upper_ascii c) = upper_ascii c"
  unfolding upper_ascii_def by unat_arith

lemma upper_ascii_lt: "c < 0x80 \<Longrightarrow> upper_ascii c < 0x80"
  unfolding upper_ascii_def by unat_arith

lemma toUpperCase_unit_stable:
  assumes "upper_stable tbl"
  shows "\<exists>d ds. toUpperCase tbl [c] = d # ds \<and> toUpperCase tbl [d] = [d]"
proof (cases "c < 0x80")
  case True
  then show ?thesis
    by (simp add: toUpperCase_def upper_ascii_idem upper_ascii_lt)
next
  case False
  then have "0x80 \<le> c" by simp
  with assms have "case tbl c of [] \<Rightarrow> False | d # ds \<Rightarrow> toUpperCase tbl [d] = [d]"
    unfolding upper_stable_def by blast
  with False show ?thesis
    by (cases "tbl c") (simp_all add: toUpperCase_def)
qed

text \<open>
  C7: capitalize changes at most the first character: the empty string is returned as it
  is, and for a non-empty string the result is the upper-cased first code unit followed
  by the remainder of the input, untouched (not lower-cased); capitalize is idempotent.
  The upper-cased first unit may be longer than one unit (U+00DF gives \<open>SS\<close>), which
  is why the remainder is stated as a suffix of the result; whenever it is one unit, as
  for every ASCII character, the result has the length of the input and agrees with it
  at every index but the first.
\<close>

theorem capitalize_first_only:
  assumes "upper_stable tbl"
  shows "capitalize tbl (JsString []) = Inr [] \<and>
         (\<exists>r. capitalize tbl (JsString s) = Inr r \<and>
              suffix (drop 1 s) r \<and>
              (s \<noteq> [] \<longrightarrow> r = toUpperCase tbl [hd s] @ tl s) \<and>
              (s \<noteq> [] \<and> length (toUpperCase tbl [hd s]) = 1 \<longrightarrow>
                 length r = length s \<and> (\<forall>i. 0 < i \<and> i < length s \<longrightarrow> r ! i = s ! i)) \<and>
              capitalize tbl (JsString r) = Inr r)"
proof (cases s)
  case Nil
  then show ?thesis
    by (simp add: capitalize_def validateString_def)
next
  case (Cons c t)
  obtain d ds where u: "toUpperCase tbl [c] = d # ds" and d: "toUpperCase tbl [d] = [d]"
    using toUpperCase_unit_stable [OF assms] by blast
  have r: "capitalize tbl (JsString s) = Inr (d # ds @ t)"
    using Cons u by (simp add: capitalize_def validateString_def charAt_def)
  have i: "capitalize tbl (JsString (d # ds @ t)) = Inr (d # ds @ t)"
    using d by (simp add: capitalize_def validateString_def charAt_def)
  have sf: "suffix (drop 1 s) (d # ds @ t)"
    using Cons by (simp add: suffix_def)
  have eq: "d # ds @ t = toUpperCase tbl [hd s] @ tl s"
    using Cons u by simp
  have one: "length (toUpperCase tbl [hd s]) = 1 \<longrightarrow>
      length (d # ds @ t) = length s \<and> (\<forall>i. 0 < i \<and> i < length s \<longrightarrow> (d # ds @ t) ! i = s ! i)"
  proof
    assume "length (toUpperCase tbl [hd s]) = 1"
    then have "ds = []" using Cons u by simp
    then show "length (d # ds @ t) = length s \<and>
        (\<forall>i. 0 < i \<and> i < length s \<longrightarrow> (d # ds @ t) ! i = s ! i)"
      using Cons by (auto simp add: nth_Cons')
  qed
  have e: "capitalize tbl (JsString []) = Inr []"
    by (simp add: capitalize_def validateString_def)
  show ?thesis
    using e r i sf eq one by blast
qed

text \<open>The Latin-1 part of the Unicode table is stable; it serves as the concrete table below.\<close>

lemma upper_stable_latin1: "upper_stable latin1_upper"
  unfolding upper_stable_def
proof (intro allI impI)
  fix c :: code_unit
  assume c: "0x80 \<le> c"
  consider "c = 0xDF" | "c = 0xB5" | "c = 0xFF" | "0xE0 \<le> c \<and> c \<le> 0xFE \<and> c \<noteq> 0xF7 \<and> c \<noteq> 0xDF \<and> c \<noteq> 0xB5 \<and> c \<noteq> 0xFF" 
    | "\<not> (0xE0 \<le> c \<and> c \<le> 0xFE \<and> c \<noteq> 0xF7) \<and> c \<noteq> 0xDF \<and> c \<noteq> 0xB5 \<and> c \<noteq> 0xFF"
    by blast
  then show "case latin1_upper c of [] \<Rightarrow> False | d # ds \<Rightarrow> toUpperCase latin1_upper [d] = [d]"
  proof cases
    case 1
    then show ?thesis by (simp add: latin1_upper_def toUpperCase_def upper_ascii_def)
  next
    case 2
    then show ?thesis by (simp add: latin1_upper_def toUpperCase_def upper_ascii_def)
  next
    case 3
    then show ?thesis by (simp add: latin1_upper_def toUpperCase_def upper_ascii_def)
  next
    case 4
    then have a: "latin1_upper c = [c - 0x20]" by (simp add: latin1_upper_def)
    from 4 have b: "\<not> (c - 0x20 < 0x80)" "c - 0x20 \<noteq> 0xDF" "c - 0x20 \<noteq> 0xB5" "c - 0x20 \<noteq> 0xFF"
      "\<not> (0xE0 \<le> c - 0x20 \<and> c - 0x20 \<le> 0xFE \<and> c - 0x20 \<noteq> 0xF7)"
      by unat_arith+
    show ?thesis unfolding a using b by (simp add: latin1_upper_def toUpperCase_def)
  next
    case 5
    then have a: "latin1_upper c = [c]" by (simp add: latin1_upper_def)
    from c have "\<not> c < 0x80" by simp
    then show ?thesis unfolding a using 5 by (simp add: latin1_upper_def toUpperCase_def)
  qed
qed

theorem capitalize_first_only_witness:
  "upper_stable latin1_upper \<and>
   capitalize latin1_upper (JsString [0xDF, 0x61]) = Inr (ascii ''SSa'') \<and>
   capitalize latin1_upper (JsString (ascii ''SSa'')) = Inr (ascii ''SSa'') \<and>
   capitalize latin1_upper (JsString (ascii ''hello world'')) = Inr (ascii ''Hello world'') \<and>
   length (toUpperCase latin1_upper [hd (ascii ''hello world'')]) = 1"
  using capitalize_first_only [OF upper_stable_latin1, of "[0xDF, 0x61]"]
    capitalize_first_only [OF upper_stable_latin1, of "ascii ''hello world''"]
  by (simp add: upper_stable_latin1 capitalize_def validateString_def ascii_def
      toUpperCase_def charAt_def upper_ascii_def latin1_upper_def)

section \<open>Properties of trimExtraSpaces\<close>

lemma is_space_0x20: "is_space 0x20"
  by (simp add: is_space_def)

lemma hd_replace_spaces:
  "s \<noteq> [] \<Longrightarrow> \<not> is_space (hd s) \<Longrightarrow> replace_spaces rep s \<noteq> [] \<and> hd (replace_spaces rep s) = hd s"
  by (cases s) simp_all

lemma single_spaced_replace: "single_spaced (replace_spaces [0x20] s)"
proof (induction "[0x20 :: code_unit]" s rule: replace_spaces.induct)
  case 1
  show ?case by simp
next
  case (2 c cs)
  show ?case
  proof (cases "is_space c")
    case True
    let ?t = "dropWhile is_space cs"
    have "replace_spaces [0x20] ?t = [] \<or> \<not> is_space (hd (replace_spaces [0x20] ?t))"
    proof (cases "?t = []")
      case True
      then have "replace_spaces [0x20] ?t = []" by (simp only: replace_spaces.simps)
      then show ?thesis by blast
    next
      case False
      then have "\<not> is_space (hd ?t)" by (metis hd_dropWhile)
      with False show ?thesis by (metis hd_replace_spaces)
    qed
    with True 2 show ?thesis by simp
  next
    case False
    with 2 show ?thesis by simp
  qed
qed

lemma replace_single_spaced: "single_spaced s \<Longrightarrow> replace_spaces [0x20] s = s"
proof (induction s)
  case Nil
  show ?case by simp
next
  case (Cons c cs)
  show ?case
  proof (cases "is_space c")
    case True
    with Cons.prems have "c = 0x20" and "cs = [] \<or> \<not> is_space (hd cs)" by simp_all
    then have "dropWhile is_space cs = cs" by (cases cs) auto
    with Cons True \<open>c = 0x20\<close> show ?thesis by simp
  next
    case False
    with Cons show ?thesis by simp
  qed
qed

lemma single_spaced_append: "single_spaced (xs @ ys) \<Longrightarrow> single_spaced xs \<and> single_spaced ys"
proof (induction xs)
  case Nil
  then show ?case by simp
next
  case (Cons x xs)
  then show ?case by (cases xs) auto
qed

lemma trim_decomp: "\<exists>p q. s = p @ trim s @ q"
proof -
  let ?a = "dropWhile is_space s"
  have "s = takeWhile is_space s @ ?a" by simp
  moreover have "rev ?a = takeWhile is_space (rev ?a) @ dropWhile is_space (rev ?a)" by simp
  then have "?a = trim s @ rev (takeWhile is_space (rev ?a))"
    unfolding trim_def by (metis rev_append rev_rev_ident)
  ultimately show ?thesis by metis
qed

lemma single_spaced_trim: "single_spaced s \<Longrightarrow> single_spaced (trim s)"
  using trim_decomp [of s] single_spaced_append by metis

lemma trim_ends: "trim s \<noteq> [] \<Longrightarrow> \<not> is_space (hd (trim s)) \<and> \<not> is_space (last (trim s))"
proof -
  assume ne: "trim s \<noteq> []"
  let ?a = "dropWhile is_space s"
  let ?b = "dropWhile is_space (rev ?a)"
  have b: "?b \<noteq> []" using ne by (simp add: trim_def)
  then have "\<not> is_space (hd ?b)" by (metis hd_dropWhile)
  then have l: "\<not> is_space (last (trim s))"
    using b by (simp add: trim_def last_rev)
  have "?a \<noteq> []"
  proof
    assume "?a = []"
    then have "?b = []" by (simp only: rev.simps dropWhile.simps)
    with b show False by contradiction
  qed
  then have ha: "\<not> is_space (hd ?a)" by (metis hd_dropWhile)
  have "rev ?a = takeWhile is_space (rev ?a) @ ?b" by simp
  then have "?a = trim s @ rev (takeWhile is_space (rev ?a))"
    unfolding trim_def by (metis rev_append rev_rev_ident)
  then have "hd ?a = hd (trim s)" using ne by (metis hd_append2)
  with ha l show ?thesis by simp
qed

lemma dropWhile_hd_id: "xs \<noteq> [] \<Longrightarrow> \<not> P (hd xs) \<Longrightarrow> dropWhile P xs = xs"
  by (cases xs) simp_all

lemma trim_Nil: "trim [] = []"
  by (simp add: trim_def)

lemma trim_idem: "trim (trim s) = trim s"
proof (cases "trim s = []")
  case True
  then show ?thesis by (simp add: trim_Nil)
next
  case False
  from trim_ends [OF False] have h: "\<not> is_space (hd (trim s))" and l: "\<not> is_space (last (trim s))" by simp_all
  have 1: "dropWhile is_space (trim s) = trim s"
    using False h by (rule dropWhile_hd_id)
  have "rev (trim s) \<noteq> []" using False by simp
  moreover have "\<not> is_space (hd (rev (trim s)))" using False l by (simp add: hd_rev)
  ultimately have 2: "dropWhile is_space (rev (trim s)) = rev (trim s)"
    by (rule dropWhile_hd_id)
  show ?thesis
    unfolding trim_def [of "trim s"] 1 2 by simp
qed

lemma single_spaced_no_adjacent:
  "single_spaced r \<Longrightarrow> Suc i < length r \<Longrightarrow> \<not> (is_space (r ! i) \<and> is_space (r ! Suc i))"
proof (induction r arbitrary: i)
  case Nil
  then show ?case by simp
next
  case (Cons c cs)
  show ?case
  proof (cases i)
    case 0
    with Cons.prems show ?thesis by (cases cs) auto
  next
    case (Suc j)
    with Cons show ?thesis by simp
  qed
qed

text \<open>
  C8: trimExtraSpaces always returns a string \<open>r\<close>; applying it to \<open>r\<close> gives
  \<open>r\<close> again (idempotence); \<open>r\<close> never holds two adjacent whitespace characters
  and never begins or ends with whitespace.
\<close>

theorem trimExtraSpaces_idem_tidy:
  "\<exists>r. trimExtraSpaces (JsString s) = Inr r \<and>
       trimExtraSpaces (JsString r) = Inr r \<and>
       (\<forall>i. Suc i < length r \<longrightarrow> \<not> (is_space (r ! i) \<and> is_space (r ! Suc i))) \<and>
       (r \<noteq> [] \<longrightarrow> \<not> is_space (hd r) \<and> \<not> is_space (last r))"
proof -
  let ?r = "trim (replace_spaces [0x20] s)"
  have ss: "single_spaced ?r"
    by (rule single_spaced_trim) (rule single_spaced_replace)
  have "trim (replace_spaces [0x20] ?r) = ?r"
    by (simp add: replace_single_spaced [OF ss] trim_idem)
  then have "trimExtraSpaces (JsString s) = Inr ?r \<and> trimExtraSpaces (JsString ?r) = Inr ?r"
    by (simp add: trimExtraSpaces_def validateString_def)
  moreover have "\<forall>i. Suc i < length ?r \<longrightarrow> \<not> (is_space (?r ! i) \<and> is_space (?r ! Suc i))"
    using single_spaced_no_adjacent [OF ss] by blast
  moreover have "?r \<noteq> [] \<longrightarrow> \<not> is_space (hd ?r) \<and> \<not> is_space (last ?r)"
    using trim_ends by blast
  ultimately show ?thesis by blast
qed

theorem trimExtraSpaces_idem_tidy_witness:
  "trimExtraSpaces (JsString (ascii ''  hello   world  '')) = Inr (ascii ''hello world'') \<and>
   trimExtraSpaces (JsString (ascii ''hello world'')) = Inr (ascii ''hello world'') \<and>
   trimExtraSpaces (JsString [0x61, 0x9, 0xA0, 0x2003, 0x62, 0xFEFF]) = Inr (ascii ''a b'') \<and>
   \<not> is_space (hd (ascii ''hello world'')) \<and> \<not> is_space (last (ascii ''hello world''))"
  using trimExtraSpaces_idem_tidy [of "ascii ''  hello   world  ''"]
  by (simp add: trimExtraSpaces_def validateString_def ascii_def trim_def is_space_def)

section \<open>Properties of isPalindrome\<close>

text \<open>
  C10: isPalindrome is invariant under reversal of its input, for every string and
  every value of the caseSensitive flag (given, omitted, true or false).
\<close>

theorem isPalindrome_rev:
  "isPalindrome (JsString (rev s)) caseSensitive = isPalindrome (JsString s) caseSensitive"
  by (auto simp add: isPalindrome_def validateString_def Let_def rev_filter rev_map)

section \<open>Properties of randomString\<close>




section \<open>Properties of the UTF-8 conversions\<close>

text \<open>One decoding step for each well-formed sequence length.\<close>

lemma utf8_decode_1:
  "b < 0x80 \<Longrightarrow> utf8_decode_bytes (b # bs) = b # utf8_decode_bytes bs"
  by simp

lemma utf8_decode_2:
  "0xC2 \<le> b \<Longrightarrow> b \<le> 0xDF \<Longrightarrow> is_cont c \<Longrightarrow>
   utf8_decode_bytes (b # c # cs) = ((b - 0xC0) * 64 + (c - 0x80)) # utf8_decode_bytes cs"
  by simp

lemma utf8_decode_3:
  "0xE0 \<le> b \<Longrightarrow> b \<le> 0xEF \<Longrightarrow>
   (if b = 0xE0 then 0xA0 else 0x80) \<le> c \<Longrightarrow> c \<le> (if b = 0xED then 0x9F else 0xBF) \<Longrightarrow>
   is_cont d \<Longrightarrow>
   utf8_decode_bytes (b # c # d # ds) =
     ((b - 0xE0) * 0x1000 + (c - 0x80) * 64 + (d - 0x80)) # utf8_decode_bytes ds"
  by simp

lemma utf8_decode_4:
  "0xF0 \<le> b \<Longrightarrow> b \<le> 0xF4 \<Longrightarrow>
   (if b = 0xF0 then 0x90 else 0x80) \<le> c \<Longrightarrow> c \<le> (if b = 0xF4 then 0x8F else 0xBF) \<Longrightarrow>
   is_cont d \<Longrightarrow> is_cont e \<Longrightarrow>
   utf8_decode_bytes (b # c # d # e # es) =
     (0xD800 + ((b - 0xF0) * 0x40000 + (c - 0x80) * 0x1000 + (d - 0x80) * 64 + (e - 0x80) - 0x10000) div 0x400) #
     (0xDC00 + ((b - 0xF0) * 0x40000 + (c - 0x80) * 0x1000 + (d - 0x80) * 64 + (e - 0x80) - 0x10000) mod 0x400) #
     utf8_decode_bytes es"
  by (simp add: Let_def)

text \<open>The arithmetic of the two-, three- and four-byte forms, digit by digit in base 64.\<close>

lemma utf8_arith_2:
  fixes u :: nat
  assumes "0x80 \<le> u" "u < 0x800"
  shows "0xC2 \<le> 0xC0 + u div 64" "0xC0 + u div 64 \<le> 0xDF" "is_cont (0x80 + u mod 64)"
    "(0xC0 + u div 64 - 0xC0) * 64 + (0x80 + u mod 64 - 0x80) = u"
proof -
  define q r where "q = u div 64" and "r = u mod 64"
  have u: "u = q * 64 + r" and r: "r < 64" by (simp_all add: q_def r_def)
  show "0xC2 \<le> 0xC0 + u div 64" "0xC0 + u div 64 \<le> 0xDF" "is_cont (0x80 + u mod 64)"
    "(0xC0 + u div 64 - 0xC0) * 64 + (0x80 + u mod 64 - 0x80) = u"
    unfolding is_cont_def q_def [symmetric] r_def [symmetric]
    using u r assms by simp_all
qed

lemma utf8_arith_3:
  fixes u :: nat
  assumes "0x800 \<le> u" "u < 0x10000" "u < 0xD800 \<or> 0xE000 \<le> u"
  shows "0xE0 \<le> 0xE0 + u div 0x1000" "0xE0 + u div 0x1000 \<le> 0xEF"
    "(if 0xE0 + u div 0x1000 = 0xE0 then 0xA0 else 0x80) \<le> 0x80 + u div 64 mod 64"
    "0x80 + u div 64 mod 64 \<le> (if 0xE0 + u div 0x1000 = 0xED then 0x9F else 0xBF)"
    "is_cont (0x80 + u mod 64)"
    "(0xE0 + u div 0x1000 - 0xE0) * 0x1000 + (0x80 + u div 64 mod 64 - 0x80) * 64 +
       (0x80 + u mod 64 - 0x80) = u"
proof -
  define p q r where "p = u div 64 div 64" and "q = u div 64 mod 64" and "r = u mod 64"
  have d: "u div 0x1000 = p"
    unfolding p_def by (simp add: div_mult2_eq [symmetric])
  have "u div 64 = p * 64 + q" by (simp add: p_def q_def)
  moreover have "u = u div 64 * 64 + r" by (simp add: r_def)
  ultimately have u: "u = (p * 64 + q) * 64 + r" by simp
  have r: "r < 64" "q < 64" by (simp_all add: q_def r_def)
  show "0xE0 \<le> 0xE0 + u div 0x1000" "0xE0 + u div 0x1000 \<le> 0xEF"
    "(if 0xE0 + u div 0x1000 = 0xE0 then 0xA0 else 0x80) \<le> 0x80 + u div 64 mod 64"
    "0x80 + u div 64 mod 64 \<le> (if 0xE0 + u div 0x1000 = 0xED then 0x9F else 0xBF)"
    "is_cont (0x80 + u mod 64)"
    "(0xE0 + u div 0x1000 - 0xE0) * 0x1000 + (0x80 + u div 64 mod 64 - 0x80) * 64 +
       (0x80 + u mod 64 - 0x80) = u"
    unfolding is_cont_def d q_def [symmetric] r_def [symmetric]
    using u r assms by auto
qed

lemma utf8_arith_4:
  fixes cp h l :: nat
  assumes cp: "cp = 0x10000 + h * 0x400 + l" and h: "h < 0x400" and l: "l < 0x400"
  shows "0xF0 \<le> 0xF0 + cp div 0x40000" "0xF0 + cp div 0x40000 \<le> 0xF4"
    "(if 0xF0 + cp div 0x40000 = 0xF0 then 0x90 else 0x80) \<le> 0x80 + cp div 0x1000 mod 64"
    "0x80 + cp div 0x1000 mod 64 \<le> (if 0xF0 + cp div 0x40000 = 0xF4 then 0x8F else 0xBF)"
    "is_cont (0x80 + cp div 64 mod 64)"
    "is_cont (0x80 + cp mod 64)"
    "(0xF0 + cp div 0x40000 - 0xF0) * 0x40000 + (0x80 + cp div 0x1000 mod 64 - 0x80) * 0x1000 +
       (0x80 + cp div 64 mod 64 - 0x80) * 64 + (0x80 + cp mod 64 - 0x80) = cp"
proof -
  define p q r s where "p = cp div 64 div 64 div 64" and "q = cp div 64 div 64 mod 64"
    and "r = cp div 64 mod 64" and "s = cp mod 64"
  have d3: "cp div 0x40000 = p"
    unfolding p_def by (simp add: div_mult2_eq [symmetric])
  have d2: "cp div 0x1000 mod 64 = q"
    unfolding q_def by (simp add: div_mult2_eq [symmetric])
  have "cp div 64 div 64 = p * 64 + q" by (simp add: p_def q_def)
  moreover have "cp div 64 = cp div 64 div 64 * 64 + r" by (simp add: r_def)
  moreover have "cp = cp div 64 * 64 + s" by (simp add: s_def)
  ultimately have e: "cp = ((p * 64 + q) * 64 + r) * 64 + s" by simp
  have b: "q < 64" "r < 64" "s < 64" by (simp_all add: q_def r_def s_def)
  have lo: "0x10000 \<le> cp" and hi: "cp < 0x110000" using cp h l by simp_all
  show "0xF0 \<le> 0xF0 + cp div 0x40000" "0xF0 + cp div 0x40000 \<le> 0xF4"
    "(if 0xF0 + cp div 0x40000 = 0xF0 then 0x90 else 0x80) \<le> 0x80 + cp div 0x1000 mod 64"
    "0x80 + cp div 0x1000 mod 64 \<le> (if 0xF0 + cp div 0x40000 = 0xF4 then 0x8F else 0xBF)"
    "is_cont (0x80 + cp div 64 mod 64)"
    "is_cont (0x80 + cp mod 64)"
    "(0xF0 + cp div 0x40000 - 0xF0) * 0x40000 + (0x80 + cp div 0x1000 mod 64 - 0x80) * 0x1000 +
       (0x80 + cp div 64 mod 64 - 0x80) * 64 + (0x80 + cp mod 64 - 0x80) = cp"
    unfolding is_cont_def d3 d2 r_def [symmetric] s_def [symmetric]
    using e b lo hi by auto
qed

lemma utf8_roundtrip_units:
  "well_formed_units us \<Longrightarrow> \<forall>u\<in>set us. u < 0x10000 \<Longrightarrow>
   utf8_decode_bytes (utf8_encode_units us) = us"
proof (induction us rule: well_formed_units.induct)
  case 1
  show ?case by simp
next
  case (2 u us)
  have u16: "u < 0x10000" using "2.prems" by simp
  consider (one) "u < 0x80" | (two) "0x80 \<le> u" "u < 0x800"
    | (three) "0x800 \<le> u" "u < 0xD800 \<or> 0xE000 \<le> u"
    | (high) "0xD800 \<le> u" "u < 0xDC00" | (low) "0xDC00 \<le> u" "u < 0xE000"
    by linarith
  then show ?case
  proof cases
    case one
    then have wf: "well_formed_units us" using "2.prems" by simp
    have ih: "utf8_decode_bytes (utf8_encode_units us) = us"
      using "2.IH"(2) one wf "2.prems" by simp
    have "utf8_encode_units (u # us) = u # utf8_encode_units us" using one by simp
    then show ?thesis using one ih by (simp only: utf8_decode_1)
  next
    case two
    then have wf: "well_formed_units us" using "2.prems" by simp
    have ih: "utf8_decode_bytes (utf8_encode_units us) = us"
      using "2.IH"(2) two wf "2.prems" by simp
    have "utf8_encode_units (u # us) = (0xC0 + u div 64) # (0x80 + u mod 64) # utf8_encode_units us"
      using two by simp
    then show ?thesis
      using utf8_arith_2 [OF two] ih by (simp only: utf8_decode_2)
  next
    case three
    then have wf: "well_formed_units us" using "2.prems" by auto
    have ih: "utf8_decode_bytes (utf8_encode_units us) = us"
      using "2.IH"(2) three wf "2.prems" by auto
    have "utf8_encode_units (u # us) =
        (0xE0 + u div 0x1000) # (0x80 + u div 64 mod 64) # (0x80 + u mod 64) # utf8_encode_units us"
      using three by auto
    then show ?thesis
      using utf8_arith_3 [OF three(1) u16 three(2)] ih by (simp only: utf8_decode_3)
  next
    case high
    then obtain v vs where us: "us = v # vs" and v: "0xDC00 \<le> v" "v < 0xE000"
      and wf: "well_formed_units vs"
      using "2.prems"(1) by (cases us) simp_all
    have ih: "utf8_decode_bytes (utf8_encode_units vs) = vs"
      using "2.IH"(1) high us v wf "2.prems" by simp
    define cp where "cp = 0x10000 + (u - 0xD800) * 0x400 + (v - 0xDC00)"
    have enc: "utf8_encode_units (u # v # vs) =
        (0xF0 + cp div 0x40000) # (0x80 + cp div 0x1000 mod 64) #
        (0x80 + cp div 64 mod 64) # (0x80 + cp mod 64) # utf8_encode_units vs"
      using high v by (simp add: cp_def Let_def)
    have h: "u - 0xD800 < 0x400" and l: "v - 0xDC00 < 0x400" using high v by simp_all
    note a = utf8_arith_4 [OF cp_def h l]
    define hh ll where "hh = u - 0xD800" and "ll = v - 0xDC00"
    have "cp - 0x10000 = hh * 0x400 + ll" by (simp add: cp_def hh_def ll_def)
    moreover have "ll < 0x400" using l by (simp add: ll_def)
    ultimately have "(cp - 0x10000) div 0x400 = hh" "(cp - 0x10000) mod 0x400 = ll" by simp_all
    then have surr: "0xD800 + (cp - 0x10000) div 0x400 = u" "0xDC00 + (cp - 0x10000) mod 0x400 = v"
      using high v by (simp_all add: hh_def ll_def)
    have "utf8_decode_bytes (utf8_encode_units (u # v # vs)) = u # v # vs"
      unfolding enc
      using utf8_decode_4 [OF a(1) a(2) a(3) a(4) a(5) a(6), of "utf8_encode_units vs"]
      by (simp only: a(7) surr ih)
    then show ?thesis by (simp only: us)
  next
    case low
    then show ?thesis using "2.prems"(1) by simp
  qed
qed

lemma cont_byte_lt: "0x80 + x mod 64 < (256::nat)"
  using mod_less_divisor [of 64 x] by linarith

lemma utf8_encode_units_range:
  "\<forall>u\<in>set us. u < 0x10000 \<Longrightarrow> \<forall>b\<in>set (utf8_encode_units us). b < 256"
proof (induction us rule: utf8_encode_units.induct)
  case 1
  show ?case by simp
next
  case (2 u us)
  have u16: "u < 0x10000" and rest: "\<forall>u\<in>set us. u < 0x10000" using "2.prems" by simp_all
  consider (one) "u < 0x80" | (two) "0x80 \<le> u" "u < 0x800"
    | (three) "0x800 \<le> u" "u < 0xD800 \<or> 0xE000 \<le> u"
    | (high) "0xD800 \<le> u" "u < 0xDC00" | (low) "0xDC00 \<le> u" "u < 0xE000"
    by linarith
  then show ?case
  proof cases
    case one
    then show ?thesis using "2.IH"(1) rest by simp
  next
    case two
    then have "\<forall>b\<in>set (utf8_encode_units us). b < 256" using "2.IH"(2) rest by simp
    moreover have "utf8_encode_units (u # us) =
        (0xC0 + u div 64) # (0x80 + u mod 64) # utf8_encode_units us"
      using two by simp
    ultimately show ?thesis
      using utf8_arith_2(2) [OF two] cont_byte_lt [of u] by simp
  next
    case three
    then have "\<forall>b\<in>set (utf8_encode_units us). b < 256" using "2.IH"(6) rest by auto
    moreover have "utf8_encode_units (u # us) =
        (0xE0 + u div 0x1000) # (0x80 + u div 64 mod 64) # (0x80 + u mod 64) # utf8_encode_units us"
      using three by auto
    ultimately show ?thesis
      using utf8_arith_3(2) [OF three(1) u16 three(2)] cont_byte_lt [of u] cont_byte_lt [of "u div 64"]
      by simp
  next
    case high
    show ?thesis
    proof (cases us)
      case Nil
      with high show ?thesis by simp
    next
      case (Cons v vs)
      show ?thesis
      proof (cases "0xDC00 \<le> v \<and> v < 0xE000")
        case True
        define cp where "cp = 0x10000 + (u - 0xD800) * 0x400 + (v - 0xDC00)"
        have h: "u - 0xD800 < 0x400" and l: "v - 0xDC00 < 0x400" using high True by auto
        note a = utf8_arith_4 [OF cp_def h l]
        have "\<forall>b\<in>set (utf8_encode_units vs). b < 256"
          using "2.IH"(3) high Cons True rest by simp
        moreover have "utf8_encode_units (u # us) =
            (0xF0 + cp div 0x40000) # (0x80 + cp div 0x1000 mod 64) #
            (0x80 + cp div 64 mod 64) # (0x80 + cp mod 64) # utf8_encode_units vs"
          using high Cons True by (simp add: cp_def Let_def)
        ultimately show ?thesis
          using a(2) cont_byte_lt [of cp] cont_byte_lt [of "cp div 64"] cont_byte_lt [of "cp div 0x1000"]
          by simp
      next
        case False
        then have "\<forall>b\<in>set (utf8_encode_units us). b < 256"
          using "2.IH"(4) high Cons rest by simp
        moreover have "utf8_encode_units (u # us) = 0xEF # 0xBF # 0xBD # utf8_encode_units us"
          using high Cons False by auto
        ultimately show ?thesis by simp
      qed
    qed
  next
    case low
    then have "\<forall>b\<in>set (utf8_encode_units us). b < 256" using "2.IH"(5) rest by simp
    then show ?thesis using low by simp
  qed
qed

lemma map_unat_of_nat:
  "\<forall>x\<in>set xs. x < 2 ^ LENGTH('a::len) \<Longrightarrow> map unat (map of_nat xs :: 'a word list) = xs"
  by (induction xs) (simp_all add: unat_of_nat)

lemma map_of_nat_unat: "map of_nat (map unat s) = (s :: 'a::len word list)"
  by (induction s) simp_all

lemma units_range: "\<forall>u\<in>set (map unat (s :: jsstring)). u < 0x10000"
proof
  fix u assume "u \<in> set (map unat s)"
  then obtain c :: code_unit where "u = unat c" by auto
  moreover have "unat c < 2 ^ LENGTH(16)" by (rule unsigned_less)
  ultimately show "u < 0x10000" by simp
qed

lemma utf8_roundtrip: "well_formed s \<Longrightarrow> toString_utf8 (Buffer_from_utf8 s) = s"
proof -
  assume wf: "well_formed s"
  let ?us = "map unat s"
  have r: "\<forall>b\<in>set (utf8_encode_units ?us). b < 2 ^ LENGTH(8)"
    using utf8_encode_units_range [OF units_range [of s]] by simp
  have "toString_utf8 (Buffer_from_utf8 s) = map of_nat (utf8_decode_bytes (utf8_encode_units ?us))"
    unfolding toString_utf8_def Buffer_from_utf8_def
    by (simp only: map_unat_of_nat [OF r])
  also have "\<dots> = map of_nat ?us"
    using utf8_roundtrip_units [OF _ units_range [of s]] wf by (simp add: well_formed_def)
  finally show ?thesis by (simp only: map_of_nat_unat)
qed

section \<open>Properties of base64Encode and base64Decode\<close>

text \<open>The arithmetic of one group: three bytes against four six-bit digits.\<close>

lemma b64_group_arith:
  fixes a b c :: nat
  assumes "b < 256" "c < 256"
  shows "a div 4 * 4 + (a mod 4 * 16 + b div 16) div 16 = a"
    "(a mod 4 * 16 + b div 16) mod 16 * 16 + (b mod 16 * 4 + c div 64) div 4 = b"
    "(b mod 16 * 4 + c div 64) mod 4 * 64 + c mod 64 = c"
    "(a mod 4 * 16 + b div 16) mod 16 * 16 + (b mod 16 * 4) div 4 = b"
    "a div 4 * 4 + (a mod 4 * 16) div 16 = a"
proof -
  define a1 a0 b1 b0 c1 c0 where "a1 = a div 4" and "a0 = a mod 4" and "b1 = b div 16"
    and "b0 = b mod 16" and "c1 = c div 64" and "c0 = c mod 64"
  have e: "a = a1 * 4 + a0" "b = b1 * 16 + b0" "c = c1 * 64 + c0"
    by (simp_all add: a1_def a0_def b1_def b0_def c1_def c0_def)
  have r: "a0 < 4" "b0 < 16" "c0 < 64" by (simp_all add: a0_def b0_def c0_def)
  have r1: "b1 < 16" "c1 < 4" using assms by (simp_all add: b1_def c1_def div_less_iff_less_mult)
  show "a div 4 * 4 + (a mod 4 * 16 + b div 16) div 16 = a"
    "(a mod 4 * 16 + b div 16) mod 16 * 16 + (b mod 16 * 4 + c div 64) div 4 = b"
    "(b mod 16 * 4 + c div 64) mod 4 * 64 + c mod 64 = c"
    "(a mod 4 * 16 + b div 16) mod 16 * 16 + (b mod 16 * 4) div 4 = b"
    "a div 4 * 4 + (a mod 4 * 16) div 16 = a"
    unfolding a1_def [symmetric] a0_def [symmetric] b1_def [symmetric] b0_def [symmetric]
      c1_def [symmetric] c0_def [symmetric]
    using e r r1 by simp_all
qed

lemma sextets_range: "\<forall>b\<in>set bs. b < 256 \<Longrightarrow> \<forall>x\<in>set (sextets bs). x < 64"
proof (induction bs rule: sextets.induct)
  case (1 a b c rest)
  have "a < 256" "b < 256" "c < 256" using "1.prems" by simp_all
  then have "a div 4 < 64" "a mod 4 * 16 + b div 16 < 64" "b mod 16 * 4 + c div 64 < 64" "c mod 64 < 64"
    by linarith+
  then show ?case using 1 by simp
next
  case (2 a b)
  have "a < 256" "b < 256" using "2.prems" by simp_all
  then have "a div 4 < 64" "a mod 4 * 16 + b div 16 < 64" "b mod 16 * 4 < 64"
    by linarith+
  then show ?case by simp
next
  case (3 a)
  have "a < 256" using "3.prems" by simp_all
  then have "a div 4 < 64" "a mod 4 * 16 < 64"
    by linarith+
  then show ?case by simp
next
  case 4
  show ?case by simp
qed

lemma octets_sextets: "\<forall>b\<in>set bs. b < 256 \<Longrightarrow> octets (sextets bs) = bs"
proof (induction bs rule: sextets.induct)
  case (1 a b c rest)
  have r: "b < 256" "c < 256" using "1.prems" by simp_all
  show ?case using 1 b64_group_arith(1,2,3) [OF r] by simp
next
  case (2 a b)
  have r: "b < 256" "b < 256" using "2.prems" by simp_all
  show ?case using b64_group_arith(1,4) [OF r] by simp
next
  case (3 a)
  show ?case using b64_group_arith(5) [of 0 0 a] by simp
next
  case 4
  show ?case by simp
qed

lemma b64_char_props:
  assumes "n < 64"
  shows "unbase64 (b64_char n) = Some n" "b64_char n \<noteq> 0x3D" "b64_char n < 0x80"
    "is_b64_alphabet (b64_char n)"
  using assms unfolding unbase64_def b64_char_def is_b64_alphabet_def by auto

lemma map_filter_unbase64:
  "\<forall>x\<in>set sx. x < 64 \<Longrightarrow> List.map_filter unbase64 (map b64_char sx) = sx"
  by (induction sx) (simp_all add: List.map_filter_simps b64_char_props)

lemma takeWhile_b64:
  "\<forall>x\<in>set sx. x < 64 \<Longrightarrow>
   takeWhile (\<lambda>c. c \<noteq> 0x3D) (map b64_char sx @ replicate k 0x3D) = map b64_char sx"
proof -
  assume a: "\<forall>x\<in>set sx. x < 64"
  have nz: "\<And>c. c \<in> set (map b64_char sx) \<Longrightarrow> c \<noteq> 0x3D"
    using a by (auto simp: b64_char_props)
  have "takeWhile (\<lambda>c. c \<noteq> 0x3D) (map b64_char sx @ replicate k 0x3D)
      = map b64_char sx @ takeWhile (\<lambda>c. c \<noteq> 0x3D) (replicate k 0x3D)"
    by (rule takeWhile_append2) (rule nz)
  also have "takeWhile (\<lambda>c. c \<noteq> 0x3D) (replicate k (0x3D::nat)) = []"
    by (cases k) simp_all
  finally show ?thesis by simp
qed

lemma b64_roundtrip_bytes:
  "\<forall>b\<in>set bs. b < 256 \<Longrightarrow> b64_decode_chars (b64_encode_bytes bs) = bs"
  unfolding b64_decode_chars_def b64_encode_bytes_def
  by (simp only: takeWhile_b64 [OF sextets_range] map_filter_unbase64 [OF sextets_range] octets_sextets)

lemma b64_encode_bytes_range:
  "\<forall>b\<in>set bs. b < 256 \<Longrightarrow> \<forall>c\<in>set (b64_encode_bytes bs). c < 0x80"
  using sextets_range [of bs] unfolding b64_encode_bytes_def by (auto simp: b64_char_props)

lemma bytes_range: "\<forall>b\<in>set (map unat (buf :: byte list)). b < 256"
proof
  fix b assume "b \<in> set (map unat buf)"
  then obtain c :: byte where "b = unat c" by auto
  moreover have "unat c < 2 ^ LENGTH(8)" by (rule unsigned_less)
  ultimately show "b < 256" by simp
qed

lemma base64_roundtrip_buffer: "Buffer_from_base64 (toString_base64 buf) = buf"
proof -
  let ?bs = "map unat buf"
  have "\<forall>c\<in>set (b64_encode_bytes ?bs). c < 2 ^ LENGTH(16)"
    using b64_encode_bytes_range [OF bytes_range [of buf]] by fastforce
  then have "Buffer_from_base64 (toString_base64 buf) = map of_nat (b64_decode_chars (b64_encode_bytes ?bs))"
    unfolding Buffer_from_base64_def toString_base64_def
    by (simp only: map_unat_of_nat)
  also have "\<dots> = map of_nat ?bs"
    by (simp only: b64_roundtrip_bytes [OF bytes_range [of buf]])
  finally show ?thesis by (simp only: map_of_nat_unat)
qed

lemma b64_test_encoded: "b64_test (toString_base64 buf)"
proof -
  let ?bs = "map unat buf"
  let ?k = "(3 - length ?bs mod 3) mod 3"
  have r: "\<forall>c\<in>set (b64_encode_bytes ?bs). c < 2 ^ LENGTH(16)"
    using b64_encode_bytes_range [OF bytes_range [of buf]] by fastforce
  have sx: "\<forall>x\<in>set (sextets ?bs). x < 64" by (rule sextets_range [OF bytes_range])
  then have al: "\<And>c. c \<in> set (map b64_char (sextets ?bs)) \<Longrightarrow> is_b64_alphabet c"
    by (auto simp: b64_char_props)
  have "dropWhile is_b64_alphabet (b64_encode_bytes ?bs) = dropWhile is_b64_alphabet (replicate ?k 0x3D)"
    unfolding b64_encode_bytes_def by (rule dropWhile_append2) (rule al)
  also have "\<dots> = replicate ?k 0x3D"
    by (cases ?k) (simp_all add: is_b64_alphabet_def)
  finally have d: "dropWhile is_b64_alphabet (map unat (toString_base64 buf)) = replicate ?k 0x3D"
    unfolding toString_base64_def by (simp only: map_unat_of_nat [OF r])
  have "?k = 0 \<or> ?k = 1 \<or> ?k = 2" by linarith
  then have "replicate ?k (0x3D::nat) = [] \<or> replicate ?k (0x3D::nat) = [0x3D] \<or> replicate ?k (0x3D::nat) = [0x3D, 0x3D]"
    by (auto simp: numeral_2_eq_2)
  then show ?thesis unfolding b64_test_def Let_def d by blast
qed

lemma length_sextets_pad:
  "(length (sextets bs) + (3 - length bs mod 3) mod 3) mod 4 = 0"
proof (induction bs rule: sextets.induct)
  case (1 a b c rest)
  have "(3 - length (a # b # c # rest) mod 3) mod 3 = (3 - length rest mod 3) mod 3"
    by simp
  then show ?case using 1 by simp
qed simp_all

lemma length_toString_base64: "length (toString_base64 buf) mod 4 = 0"
  using length_sextets_pad [of "map unat buf"]
  by (simp add: toString_base64_def b64_encode_bytes_def)

lemma b64_test_append_pad:
  assumes "\<forall>c\<in>set body. is_b64_alphabet (unat c)" and "k \<le> 2"
  shows "b64_test (body @ replicate k 0x3D)"
proof -
  have al: "\<And>c. c \<in> set (map unat body) \<Longrightarrow> is_b64_alphabet c"
    using assms(1) by auto
  have "dropWhile is_b64_alphabet (map unat body @ replicate k 0x3D)
      = dropWhile is_b64_alphabet (replicate k 0x3D)"
    by (rule dropWhile_append2) (rule al)
  also have "\<dots> = replicate k 0x3D"
    by (cases k) (simp_all add: is_b64_alphabet_def)
  finally have d: "dropWhile is_b64_alphabet (map unat (body @ replicate k (0x3D::code_unit)))
      = replicate k 0x3D"
    by simp
  have "k = 0 \<or> k = 1 \<or> k = 2" using assms(2) by linarith
  then have "replicate k (0x3D::nat) = [] \<or> replicate k (0x3D::nat) = [0x3D] \<or>
      replicate k (0x3D::nat) = [0x3D, 0x3D]"
    by (auto simp: numeral_2_eq_2)
  then show ?thesis unfolding b64_test_def Let_def d by blast
qed

text \<open>
  C5, as the code has it: for every string without an unpaired surrogate,
  base64Decode(base64Encode(s)) = s; and every input that fails the syntactic check makes
  base64Decode raise a StringUtil error with the message "Invalid base64 string" (the
  base class, not a Validation error).
\<close>

theorem base64_roundtrip_well_formed:
  "(well_formed s \<longrightarrow>
      (\<exists>e. base64Encode (JsString s) = Inr e \<and> base64Decode (JsString e) = Inr s)) \<and>
   (\<not> b64_test x \<longrightarrow>
      base64Decode (JsString x) = Inl (StringUtilError ''Invalid base64 string''))"
proof (intro conjI impI)
  assume wf: "well_formed s"
  let ?e = "toString_base64 (Buffer_from_utf8 s)"
  have "base64Encode (JsString s) = Inr ?e"
    by (simp add: base64Encode_def validateString_def)
  moreover have "base64Decode (JsString ?e) = Inr s"
    using utf8_roundtrip [OF wf]
    by (simp add: base64Decode_def validateString_def b64_test_encoded base64_roundtrip_buffer)
  ultimately show "\<exists>e. base64Encode (JsString s) = Inr e \<and> base64Decode (JsString e) = Inr s"
    by blast
next
  assume "\<not> b64_test x"
  then show "base64Decode (JsString x) = Inl (StringUtilError ''Invalid base64 string'')"
    by (simp add: base64Decode_def validateString_def)
qed

theorem base64_roundtrip_well_formed_witness:
  "well_formed (ascii ''Hello World!'') \<and>
   base64Encode (JsString (ascii ''Hello World!'')) = Inr (ascii ''SGVsbG8gV29ybGQh'') \<and>
   base64Decode (JsString (ascii ''SGVsbG8gV29ybGQh'')) = Inr (ascii ''Hello World!'') \<and>
   \<not> b64_test (ascii ''not valid!!'') \<and>
   base64Decode (JsString (ascii ''not valid!!'')) = Inl (StringUtilError ''Invalid base64 string'')"
proof -
  have wf: "well_formed (ascii ''Hello World!'')"
    by (simp add: well_formed_def ascii_def)
  have e: "base64Encode (JsString (ascii ''Hello World!'')) = Inr (ascii ''SGVsbG8gV29ybGQh'')"
    by (simp add: base64Encode_def validateString_def ascii_def toString_base64_def
        Buffer_from_utf8_def b64_encode_bytes_def b64_char_def unat_of_nat)
  have nt: "\<not> b64_test (ascii ''not valid!!'')"
    by (simp add: b64_test_def ascii_def is_b64_alphabet_def)
  from base64_roundtrip_well_formed [of "ascii ''Hello World!''" "ascii ''not valid!!''"] wf e nt
  show ?thesis by simp
qed

text \<open>
  The string that consists of the unpaired surrogate U+D800 does not come back: its
  Buffer holds the bytes of U+FFFD.
\<close>

theorem base64_roundtrip_lone_surrogate:
  "base64Encode (JsString [0xD800]) = Inr (ascii ''77+9'') \<and>
   base64Decode (JsString (ascii ''77+9'')) = Inr [0xFFFD] \<and>
   [0xFFFD] \<noteq> [0xD800 :: code_unit]"
  by (simp add: base64Encode_def base64Decode_def validateString_def ascii_def toString_base64_def
      Buffer_from_utf8_def b64_encode_bytes_def b64_char_def unat_of_nat b64_test_def
      is_b64_alphabet_def toString_utf8_def Buffer_from_base64_def b64_decode_chars_def
      unbase64_def List.map_filter_simps is_cont_def)

text \<open>
  C9: the syntactic check of base64Decode does not ask for a length that is a multiple of
  four. Every string of alphabet characters followed by at most two \<open>=\<close> is decoded
  without an error, whatever its length, while every output of base64Encode has a length
  that is a multiple of four; so \<open>abc\<close> is accepted although no encoding equals it.
\<close>

theorem base64Decode_any_length:
  "((\<forall>c\<in>set body. is_b64_alphabet (unat c)) \<and> k \<le> 2 \<longrightarrow>
      (\<exists>r. base64Decode (JsString (body @ replicate k 0x3D)) = Inr r)) \<and>
   (base64Encode v = Inr e \<longrightarrow> length e mod 4 = 0)"
proof (intro conjI impI)
  assume "(\<forall>c\<in>set body. is_b64_alphabet (unat c)) \<and> k \<le> 2"
  then have "b64_test (body @ replicate k 0x3D)"
    using b64_test_append_pad by blast
  then show "\<exists>r. base64Decode (JsString (body @ replicate k 0x3D)) = Inr r"
    by (simp add: base64Decode_def validateString_def)
next
  assume "base64Encode v = Inr e"
  then have "e = toString_base64 (Buffer_from_utf8 (case v of JsString s \<Rightarrow> s | _ \<Rightarrow> []))"
    by (cases v) (simp_all add: base64Encode_def validateString_def)
  then show "length e mod 4 = 0"
    by (simp only: length_toString_base64)
qed

theorem base64Decode_any_length_witness:
  "list_all (\<lambda>c. is_b64_alphabet (unat c)) (ascii ''abc'') \<and>
   base64Decode (JsString (ascii ''abc'')) = Inr [0x69, 0xFFFD] \<and>
   length (ascii ''abc'') mod 4 = 3 \<and>
   base64Encode (JsString (ascii ''i'')) = Inr (ascii ''aQ=='') \<and>
   length (ascii ''aQ=='') mod 4 = 0"
proof -
  have al: "\<forall>c\<in>set (ascii ''abc''). is_b64_alphabet (unat c)"
    by (simp add: ascii_def is_b64_alphabet_def)
  have d: "base64Decode (JsString (ascii ''abc'')) = Inr [0x69, 0xFFFD]"
    by (simp add: base64Decode_def validateString_def ascii_def b64_test_def
      is_b64_alphabet_def toString_utf8_def Buffer_from_base64_def b64_decode_chars_def
      unbase64_def List.map_filter_simps is_cont_def unat_of_nat)
  have pad: "replicate 2 (0x3D::nat) = [0x3D, 0x3D]"
    by (simp add: numeral_2_eq_2)
  have e: "base64Encode (JsString (ascii ''i'')) = Inr (ascii ''aQ=='')"
    by (simp add: base64Encode_def validateString_def ascii_def toString_base64_def
        Buffer_from_utf8_def b64_encode_bytes_def b64_char_def unat_of_nat pad)
  from base64Decode_any_length [of "ascii ''abc''" 0 "JsString (ascii ''i'')" "ascii ''aQ==''"] al d e
  show ?thesis by (simp add: ascii_def list_all_iff)
qed

section \<open>Properties of hashWithSalt and verifyHash\<close>

lemma split_on_no_sep: "sep \<notin> set s \<Longrightarrow> split_on sep s = [s]"
  by (induction s) auto


lemma split_on_hd: "\<exists>p ps. split_on sep s = p # ps"
  by (induction s) (auto split: list.splits)











lemma verifyHash_no_separator:
  assumes "0x3A \<notin> set enc"
  shows "verifyHash kdf (JsString p) (JsString enc) =
     (case pbkdf2Sync kdf p enc 10 64 of
        None \<Rightarrow> Inl (CryptoError ''Failed to verify hash'')
      | Some key \<Rightarrow> Inr False)"
  using split_on_no_sep [OF assms]
  by (simp add: verifyHash_def validateString_def split: option.splits)

lemma verifyHash_error_iff:
  "verifyHash kdf (JsString p) (JsString enc) = Inl (CryptoError ''Failed to verify hash'') \<longleftrightarrow>
     pbkdf2Sync kdf p (hd (split_on 0x3A enc)) 10 64 = None"
proof -
  obtain s ps where "split_on 0x3A enc = s # ps" using split_on_hd by blast
  then show ?thesis
    by (simp add: verifyHash_def validateString_def Let_def split: option.splits)
qed

lemma verifyHash_Inr_iff:
  "(\<exists>b. verifyHash kdf (JsString p) (JsString enc) = Inr b) \<longleftrightarrow>
     pbkdf2Sync kdf p (hd (split_on 0x3A enc)) 10 64 \<noteq> None"
proof -
  obtain s ps where "split_on 0x3A enc = s # ps" using split_on_hd by blast
  then show ?thesis
    by (auto simp add: verifyHash_def validateString_def Let_def split: option.splits)
qed

text \<open>
  C1, as the code has it: verifyHash does not look at the structure of the encoded
  string. It raises the Crypto error exactly when the platform's key derivation fails for
  the password and the text before the first \<open>:\<close> (taken as the salt as it stands, hex
  or not), and returns a boolean otherwise; when the separator is missing, the whole
  string is the salt, the expected digest is undefined, and that boolean is false.
\<close>

theorem verifyHash_malformed_encoding:
  "(0x3A \<notin> set enc \<longrightarrow>
      verifyHash kdf (JsString p) (JsString enc) =
        (case pbkdf2Sync kdf p enc 10 64 of
           None \<Rightarrow> Inl (CryptoError ''Failed to verify hash'')
         | Some key \<Rightarrow> Inr False)) \<and>
   (verifyHash kdf (JsString p) (JsString enc) = Inl (CryptoError ''Failed to verify hash'') \<longleftrightarrow>
      pbkdf2Sync kdf p (hd (split_on 0x3A enc)) 10 64 = None) \<and>
   ((\<exists>b. verifyHash kdf (JsString p) (JsString enc) = Inr b) \<longleftrightarrow>
      pbkdf2Sync kdf p (hd (split_on 0x3A enc)) 10 64 \<noteq> None)"
  using verifyHash_no_separator [of enc kdf p] verifyHash_error_iff [of kdf p enc]
    verifyHash_Inr_iff [of kdf p enc]
  by blast

theorem verifyHash_malformed_encoding_witness:
  "0x3A \<notin> set (ascii ''nocolon'') \<and>
   verifyHash sample_kdf (JsString (ascii ''pw'')) (JsString (ascii ''nocolon'')) = Inr False \<and>
   verifyHash (\<lambda>password salt iterations keylen. None)
      (JsString (ascii ''pw'')) (JsString (ascii ''nocolon'')) = Inl (CryptoError ''Failed to verify hash'')"
  using verifyHash_malformed_encoding [of "ascii ''nocolon''" sample_kdf "ascii ''pw''"]
    verifyHash_malformed_encoding [of "ascii ''nocolon''" "\<lambda>password salt iterations keylen. None" "ascii ''pw''"]
  by (simp add: ascii_def pbkdf2Sync_def sample_kdf_def)

text \<open>
  Two malformed encodings, one without the separator and one with a salt that is not
  hex: with a key derivation that succeeds, verifyHash returns false for both and raises
  nothing.
\<close>

theorem verifyHash_malformed_returns_false:
  "verifyHash sample_kdf (JsString (ascii ''pw'')) (JsString (ascii ''nocolon'')) = Inr False \<and>
   verifyHash sample_kdf (JsString (ascii ''pw'')) (JsString (ascii ''zz:00'')) = Inr False"
  by (simp add: verifyHash_def validateString_def ascii_def pbkdf2Sync_def sample_kdf_def
      Buffer_from_utf8_def toString_hex_def hex_digit_def Let_def)




section \<open>Properties of similarity\<close>

lemma lev_cell_le_max: "lev_cell a b i j \<le> max i j"
proof (induction a b i j rule: lev_cell.induct)
  case (3 a b i j)
  have "lev_cell a b (Suc i) (Suc j) \<le> lev_cell a b i j + (if a ! i = b ! j then 0 else 1)"
    by simp
  also have "\<dots> \<le> max i j + 1" using 3(3) by simp
  finally show ?case by simp
qed simp_all

lemma lev_cell_sym: "lev_cell a b i j = lev_cell b a j i"
proof (induction a b i j rule: lev_cell.induct)
  case (1 a b i)
  show ?case by (cases i) simp_all
next
  case (2 a b j)
  show ?case by simp
next
  case (3 a b i j)
  then show ?case by (simp add: min.commute min.left_commute eq_commute [of "a ! i"])
qed

lemma levenshteinDistance_sym: "levenshteinDistance a b = levenshteinDistance b a"
  unfolding levenshteinDistance_def by (rule lev_cell_sym)

lemma levenshteinDistance_le: "levenshteinDistance a b \<le> max (length a) (length b)"
  unfolding levenshteinDistance_def by (rule lev_cell_le_max)

subsection \<open>Rounding to a double\<close>

lemma floor_log2_le:
  assumes "0 < x"
  shows "2 powi (floor_log2 x) \<le> x"
proof -
  obtain p q where pq: "quotient_of x = (p, q)" by (cases "quotient_of x")
  have q: "0 < q" using pq by (rule quotient_of_denom_pos)
  have x: "x = of_int p / of_int q" using pq by (rule quotient_of_div)
  have p: "0 < p" using assms q unfolding x by (simp add: zero_less_divide_iff)
  define e where "e = bitlen p - bitlen q"
  show ?thesis
  proof (cases "2 powi e \<le> x")
    case True
    then show ?thesis by (simp add: floor_log2_def pq e_def)
  next
    case False
    then have fl: "floor_log2 x = e - 1" by (simp add: floor_log2_def pq e_def)
    have bp: "1 \<le> bitlen p" using p by (simp add: bitlen_alt_def)
    have bq: "0 \<le> bitlen q" by (rule bitlen_nonneg)
    have lo: "(2::int) ^ nat (bitlen p - 1) \<le> p" using bitlen_bounds [OF p] by simp
    have hi: "q < (2::int) ^ nat (bitlen q)" using bitlen_bounds [OF q] by simp
    have lo': "(2::rat) ^ nat (bitlen p - 1) \<le> of_int p"
      using lo by (metis of_int_le_iff of_int_numeral of_int_power)
    have hi': "of_int q \<le> (2::rat) ^ nat (bitlen q)"
      using hi by (metis less_imp_le of_int_le_iff of_int_numeral of_int_power)
    have "(2::rat) powi (e - 1) = 2 powi (bitlen p - 1) / 2 powi (bitlen q)"
      unfolding e_def by (simp add: power_int_diff)
    also have "\<dots> = 2 ^ nat (bitlen p - 1) / 2 ^ nat (bitlen q)"
      using bp bq by (simp add: power_int_def)
    also have "\<dots> \<le> of_int p / of_int q"
      using lo' hi' q p by (intro frac_le) simp_all
    finally have "(2::rat) powi (e - 1) \<le> x" by (simp only: x)
    then show ?thesis by (simp only: fl)
  qed
qed

lemma floor_log2_less:
  assumes "0 < x" "x < 2 powi n"
  shows "floor_log2 x < n"
proof (rule ccontr)
  assume "\<not> floor_log2 x < n"
  then have "n \<le> floor_log2 x" by simp
  then have "(2::rat) powi n \<le> 2 powi (floor_log2 x)"
    by (intro power_int_increasing) simp_all
  with floor_log2_le [OF assms(1)] assms(2) show False by simp
qed

lemma round_half_even_nonneg: "0 \<le> y \<Longrightarrow> 0 \<le> round_half_even y"
  by (auto simp add: round_half_even_def Let_def)

lemma round_half_even_le:
  assumes "y \<le> of_int n"
  shows "round_half_even y \<le> n"
proof -
  have f: "\<lfloor>y\<rfloor> \<le> n" using assms by (simp add: floor_le_iff)
  show ?thesis
  proof (cases "\<lfloor>y\<rfloor> = n")
    case True
    have "of_int \<lfloor>y\<rfloor> \<le> y" by simp
    with assms True have "y - of_int \<lfloor>y\<rfloor> = 0" by simp
    then show ?thesis using True by (simp add: round_half_even_def Let_def)
  next
    case False
    with f have "\<lfloor>y\<rfloor> + 1 \<le> n" by simp
    then show ?thesis by (auto simp add: round_half_even_def Let_def)
  qed
qed

lemma round_double_bounds:
  assumes "0 \<le> x" "x \<le> of_nat k" "of_nat k < (2::rat) powi 53"
  shows "0 \<le> round_double x \<and> round_double x \<le> of_nat k"
proof (cases "x = 0")
  case True
  then show ?thesis by (simp add: round_double_def)
next
  case False
  then have pos: "0 < x" using assms(1) by simp
  define e where "e = max (floor_log2 \<bar>x\<bar>) (- 1022)"
  define q :: rat where "q = 2 powi (e - 52)"
  have rd: "round_double x = of_int (round_half_even (x / q)) * q"
    using False by (simp add: round_double_def Let_def e_def q_def)
  have qpos: "0 < q" by (simp add: q_def)
  have "x < 2 powi 53" using assms(2,3) by simp
  then have "floor_log2 \<bar>x\<bar> < 53" using floor_log2_less [of x 53] pos by simp
  then have e52: "e \<le> 52" by (simp add: e_def)
  have "1 / q = 2 powi (52 - e)"
    unfolding q_def by (simp add: power_int_diff)
  also have "\<dots> = 2 ^ nat (52 - e)"
    using e52 by (simp add: power_int_def)
  finally have inv: "1 / q = of_int (2 ^ nat (52 - e))" by simp
  have "x / q \<le> of_nat k / q" using assms(2) qpos by (simp add: divide_right_mono)
  also have "of_nat k / q = of_nat k * (1 / q)" by simp
  also have "\<dots> = of_int (int k * 2 ^ nat (52 - e))" unfolding inv by simp
  finally have "round_half_even (x / q) \<le> int k * 2 ^ nat (52 - e)"
    by (rule round_half_even_le)
  then have "(of_int (round_half_even (x / q)) :: rat) \<le> of_int (int k * 2 ^ nat (52 - e))"
    by (simp only: of_int_le_iff)
  then have "of_int (round_half_even (x / q)) * q \<le> of_int (int k * 2 ^ nat (52 - e)) * q"
    using qpos by (simp add: mult_right_mono)
  also have "of_int (int k * 2 ^ nat (52 - e)) * q = of_nat k * ((1 / q) * q)"
    unfolding inv by simp
  also have "\<dots> = of_nat k" using qpos by simp
  finally have up: "round_double x \<le> of_nat k" unfolding rd .
  have "0 \<le> x / q" using assms(1) qpos by simp
  then have "0 \<le> round_half_even (x / q)" by (rule round_half_even_nonneg)
  then have "0 \<le> round_double x" unfolding rd using qpos by simp
  with up show ?thesis by simp
qed

lemma to_double_bounded:
  assumes "0 \<le> x" "x \<le> of_nat k" "of_nat k < (2::rat) powi 53"
  shows "to_double x = Num (round_double x)"
proof -
  let ?r = "round_double x"
  have b: "0 \<le> ?r" "?r \<le> of_nat k" using round_double_bounds [OF assms] by simp_all
  show ?thesis
  proof (cases "?r = 0")
    case True
    then show ?thesis by (simp add: to_double_def)
  next
    case False
    then have pos: "0 < ?r" using b(1) by simp
    have "?r < 2 powi 53" using b(2) assms(3) by simp
    then have "floor_log2 \<bar>?r\<bar> < 53" using floor_log2_less [of ?r 53] pos by simp
    then show ?thesis using False by (simp add: to_double_def Let_def)
  qed
qed

text \<open>The error of one rounding in the normal range is at most half a unit in the last place.\<close>

lemma round_half_even_close: "\<bar>of_int (round_half_even y) - y\<bar> \<le> 1 / 2"
proof -
  define f where "f = \<lfloor>y\<rfloor>"
  define r where "r = y - of_int f"
  have r: "0 \<le> r" "r < 1" unfolding r_def f_def by linarith+
  have y: "y = of_int f + r" by (simp add: r_def)
  consider "r < 1 / 2" | "1 / 2 < r" | "r = 1 / 2" by linarith
  then show ?thesis
  proof cases
    case 1
    then have "round_half_even y = f" by (simp add: round_half_even_def Let_def f_def r_def)
    then have "of_int (round_half_even y) - y = - r" by (simp add: r_def)
    then show ?thesis using 1 r by simp
  next
    case 2
    then have "round_half_even y = f + 1" by (simp add: round_half_even_def Let_def f_def r_def)
    then have "of_int (round_half_even y) - y = 1 - r" by (simp add: r_def)
    then show ?thesis using 2 r by simp
  next
    case 3
    then have "round_half_even y = f \<or> round_half_even y = f + 1"
      by (simp add: round_half_even_def Let_def f_def r_def)
    then have "of_int (round_half_even y) - y = - r \<or> of_int (round_half_even y) - y = 1 - r"
      by (auto simp add: r_def)
    then show ?thesis using 3 by auto
  qed
qed

lemma powi2_less_imp_less:
  assumes "(2::rat) powi m < 2 powi n"
  shows "m < n"
proof (rule ccontr)
  assume "\<not> m < n"
  then have "n \<le> m" by simp
  then have "(2::rat) powi n \<le> 2 powi m"
    by (intro power_int_increasing) simp_all
  with assms show False by simp
qed

lemma floor_log2_ge:
  assumes "0 < x" "2 powi n \<le> x"
  shows "n \<le> floor_log2 x"
proof -
  obtain p q where pq: "quotient_of x = (p, q)" by (cases "quotient_of x")
  have q: "0 < q" using pq by (rule quotient_of_denom_pos)
  have x: "x = of_int p / of_int q" using pq by (rule quotient_of_div)
  have p: "0 < p" using assms(1) q unfolding x by (simp add: zero_less_divide_iff)
  define e where "e = bitlen p - bitlen q"
  have bp: "0 \<le> bitlen p" by (rule bitlen_nonneg)
  have bq: "1 \<le> bitlen q" using q by (simp add: bitlen_alt_def)
  have hi: "p < (2::int) ^ nat (bitlen p)" using bitlen_bounds [OF p] by simp
  have lo: "(2::int) ^ nat (bitlen q - 1) \<le> q" using bitlen_bounds [OF q] by simp
  have hi': "of_int p < (2::rat) ^ nat (bitlen p)"
    using hi by (metis of_int_less_iff of_int_numeral of_int_power)
  have lo': "(2::rat) ^ nat (bitlen q - 1) \<le> of_int q"
    using lo by (metis of_int_le_iff of_int_numeral of_int_power)
  have "of_int p / of_int q < (2::rat) ^ nat (bitlen p) / of_int q"
    using hi' q by (simp add: divide_strict_right_mono)
  also have "\<dots> \<le> 2 ^ nat (bitlen p) / 2 ^ nat (bitlen q - 1)"
    using lo' q by (intro divide_left_mono) simp_all
  also have "\<dots> = 2 powi (bitlen p) / 2 powi (bitlen q - 1)"
    using bp bq by (simp add: power_int_def)
  also have "\<dots> = 2 powi (e + 1)"
    unfolding e_def by (simp add: power_int_diff power_int_add_1)
  finally have up: "x < 2 powi (e + 1)" by (simp only: x)
  show ?thesis
  proof (cases "2 powi e \<le> x")
    case True
    then have fl: "floor_log2 x = e" by (simp add: floor_log2_def pq e_def)
    have "(2::rat) powi n < 2 powi (e + 1)" using assms(2) up by simp
    then have "n < e + 1" by (rule powi2_less_imp_less)
    then show ?thesis unfolding fl by simp
  next
    case False
    then have fl: "floor_log2 x = e - 1" by (simp add: floor_log2_def pq e_def)
    have "(2::rat) powi n < 2 powi e" using assms(2) False by simp
    then have "n < e" by (rule powi2_less_imp_less)
    then show ?thesis unfolding fl by simp
  qed
qed

lemma round_double_error:
  assumes "2 powi (- 1022) \<le> x"
  shows "\<bar>round_double x - x\<bar> \<le> x / 2 ^ 53"
proof -
  have "(0::rat) < 2 powi (- 1022)" by simp
  then have pos: "0 < x" using assms by linarith
  have ge: "- 1022 \<le> floor_log2 x" using pos assms by (rule floor_log2_ge)
  define e where "e = floor_log2 x"
  define q :: rat where "q = 2 powi (e - 52)"
  have qpos: "0 < q" by (simp add: q_def)
  have rd: "round_double x = of_int (round_half_even (x / q)) * q"
    using pos ge by (simp add: round_double_def Let_def e_def q_def max_def)
  have "round_double x - x = (of_int (round_half_even (x / q)) - x / q) * q"
    unfolding rd using qpos by (simp add: algebra_simps)
  then have "\<bar>round_double x - x\<bar> = \<bar>of_int (round_half_even (x / q)) - x / q\<bar> * q"
    using qpos by (simp add: abs_mult)
  also have "\<dots> \<le> (1 / 2) * q"
    using round_half_even_close [of "x / q"] qpos by (intro mult_right_mono) simp_all
  also have "(1 / 2) * q = 2 powi e / 2 ^ 53"
    unfolding q_def by (simp add: power_int_diff)
  also have "\<dots> \<le> x / 2 ^ 53"
    using floor_log2_le [OF pos] unfolding e_def by (simp add: divide_right_mono)
  finally show ?thesis .
qed

text \<open>
  The last two steps, \<^verbatim>\<open>Number("0.dd") * 100\<close>: two roundings, so the product stays
  within \<open>3 / 10 ^ 14\<close> of the integer.
\<close>

lemma normal_range: "(1::rat) / 128 \<le> x \<Longrightarrow> 2 powi (- 1022) \<le> x"
proof -
  assume a: "(1::rat) / 128 \<le> x"
  have "(2::rat) powi (- 1022) \<le> 2 powi (- 7)"
    by (intro power_int_increasing) simp_all
  also have "(2::rat) powi (- 7) = 1 / 128" by (simp add: power_int_minus)
  finally show ?thesis using a by linarith
qed

lemma times_100_close:
  assumes "0 \<le> k" "k \<le> 100"
  shows "\<bar>round_double (round_double (of_int k / 100) * 100) - of_int k\<bar> \<le> 3 / 10 ^ 14"
proof (cases "k = 0")
  case True
  then show ?thesis by (simp add: round_double_def)
next
  case False
  define c :: rat where "c = of_int k"
  define y where "y = round_double (c / 100)"
  define z where "z = y * 100"
  define r where "r = round_double z"
  have c: "1 \<le> c" "c \<le> 100" using False assms by (simp_all add: c_def)
  have "2 powi (- 1022) \<le> c / 100" using c by (intro normal_range) simp
  then have ey: "\<bar>y - c / 100\<bar> \<le> c / 100 / 2 ^ 53"
    unfolding y_def by (rule round_double_error)
  then have yb: "c / 100 - c / 100 / 9007199254740992 \<le> y" "y \<le> c / 100 + c / 100 / 9007199254740992"
    unfolding abs_le_iff by simp_all
  have zlo: "1 / 128 \<le> z" using yb c unfolding z_def by linarith
  have "2 powi (- 1022) \<le> z" using zlo by (rule normal_range)
  then have er: "\<bar>r - z\<bar> \<le> z / 2 ^ 53"
    unfolding r_def by (rule round_double_error)
  from er have rb: "z - z / 9007199254740992 \<le> r" "r \<le> z + z / 9007199254740992"
    unfolding abs_le_iff by simp_all
  have "\<bar>r - c\<bar> \<le> 3 / 100000000000000"
    using yb rb c unfolding z_def by linarith
  then have "\<bar>r - c\<bar> \<le> 3 / 10 ^ 14" by simp
  then show ?thesis by (simp add: r_def z_def y_def c_def)
qed

text \<open>The four arithmetic steps of similarity for a distance \<open>d\<close> and a maximal length \<open>m > 0\<close>.\<close>

lemma similarity_steps:
  assumes "0 < m" "d \<le> m"
  defines "k \<equiv> \<lfloor>round_double (1 - round_double (of_nat d / of_nat m)) * 100 + 1 / 2\<rfloor>"
  shows "js_times_100 (js_toFixed2_Number (js_one_minus (js_div_nat d m))) =
           Num (round_double (round_double (of_int k / 100) * 100))"
    and "0 \<le> k" and "k \<le> 100"
    and "0 \<le> round_double (round_double (of_int k / 100) * 100)"
    and "round_double (round_double (of_int k / 100) * 100) \<le> 100"
proof -
  have one: "of_nat 1 < (2::rat) powi 53" by simp
  have hundred: "of_nat 100 < (2::rat) powi 53" by simp
  define q1 where "q1 = round_double (of_nat d / of_nat m)"
  define q2 where "q2 = round_double (1 - q1)"
  define q3 where "q3 = round_double (of_int k / 100)"
  have r0: "0 \<le> (of_nat d / of_nat m :: rat)" "(of_nat d / of_nat m :: rat) \<le> of_nat 1"
    using assms(1,2) by simp_all
  have s1: "js_div_nat d m = Num q1"
    using assms(1) to_double_bounded [OF r0 one] by (simp add: js_div_nat_def q1_def)
  have b1: "0 \<le> q1" "q1 \<le> 1"
    using round_double_bounds [OF r0 one] by (simp_all add: q1_def)
  have r1: "0 \<le> 1 - q1" "1 - q1 \<le> of_nat 1" using b1 by simp_all
  have s2: "js_one_minus (Num q1) = Num q2"
    using to_double_bounded [OF r1 one] by (simp add: js_one_minus_def q2_def)
  have b2: "0 \<le> q2" "q2 \<le> 1"
    using round_double_bounds [OF r1 one] by (simp_all add: q2_def)
  have k: "k = \<lfloor>q2 * 100 + 1 / 2\<rfloor>" by (simp add: k_def q2_def q1_def)
  have "0 \<le> q2 * 100 + 1 / 2" using b2 by simp
  then show k0: "0 \<le> k" unfolding k by simp
  have "q2 * 100 + 1 / 2 < 101" using b2 by simp
  then have "k < 101" unfolding k by (simp add: floor_less_iff)
  then show k100: "k \<le> 100" by simp
  have r2: "0 \<le> (of_int k / 100 :: rat)" "(of_int k / 100 :: rat) \<le> of_nat 1"
    using k0 k100 by simp_all
  have small: "\<not> 10 ^ 21 \<le> \<bar>q2\<bar>" using b2 by simp
  have s3: "js_toFixed2_Number (Num q2) = Num q3"
    using to_double_bounded [OF r2 one] b2(1) small
    by (simp add: js_toFixed2_Number_def q3_def k)
  have b3: "0 \<le> q3" "q3 \<le> 1"
    using round_double_bounds [OF r2 one] by (simp_all add: q3_def)
  have r3: "0 \<le> q3 * 100" "q3 * 100 \<le> of_nat 100" using b3 by simp_all
  have s4: "js_times_100 (Num q3) = Num (round_double (q3 * 100))"
    using to_double_bounded [OF r3 hundred] by (simp add: js_times_100_def)
  show "js_times_100 (js_toFixed2_Number (js_one_minus (js_div_nat d m))) =
           Num (round_double (round_double (of_int k / 100) * 100))"
    by (simp only: s1 s2 s3 s4) (simp only: q3_def)
  show "0 \<le> round_double (round_double (of_int k / 100) * 100)"
    "round_double (round_double (of_int k / 100) * 100) \<le> 100"
    using round_double_bounds [OF r3 hundred] by (simp_all add: q3_def)
qed

lemma similarity_sym:
  "similarity (JsString a) (JsString b) = similarity (JsString b) (JsString a)"
  by (simp add: similarity_def validateString_def levenshteinDistance_sym [of a b] max.commute)

lemma similarity_hello_hallo:
  "similarity (JsString (ascii ''hello'')) (JsString (ascii ''hallo'')) = Inr (Num 80)"
  by code_simp

lemma similarity_empty: "similarity (JsString []) (JsString []) = Inr NaN"
  by (simp add: similarity_def validateString_def levenshteinDistance_def js_div_nat_def
      js_one_minus_def js_toFixed2_Number_def js_times_100_def)

lemma similarity_seventh:
  "similarity (JsString (ascii ''abcdefg'')) (JsString (ascii ''a'')) =
     Inr (Num (7881299347898369 / 562949953421312))"
  by code_simp

text \<open>
  The parts of the similarity contract that the code keeps. For two strings that are not
  both empty the result is a finite number \<open>r\<close> in [0, 100]: with \<open>k\<close> the
  two-decimal rounding (times 100) of the double-precision ratio
  \<open>1 - distance / maxLength\<close>, an integer in 0..100, \<open>r\<close> is the double product
  \<^verbatim>\<open>Number("k/100") * 100\<close>, within \<open>3 / 10 ^ 14\<close> of \<open>k\<close>. The result is the same
  for (a, b) and (b, a), and similarity("hello", "hallo") = 80.
\<close>

lemma similarity_range_and_symmetry:
  "(a \<noteq> [] \<or> b \<noteq> [] \<longrightarrow>
      (\<exists>r k. similarity (JsString a) (JsString b) = Inr (Num r) \<and> 0 \<le> r \<and> r \<le> 100 \<and>
         k = \<lfloor>round_double (1 - round_double (of_nat (levenshteinDistance a b) /
                                               of_nat (max (length a) (length b)))) * 100 + 1 / 2\<rfloor> \<and>
         0 \<le> k \<and> k \<le> 100 \<and>
         r = round_double (round_double (of_int k / 100) * 100) \<and>
         \<bar>r - of_int k\<bar> \<le> 3 / 10 ^ 14)) \<and>
   similarity (JsString a) (JsString b) = similarity (JsString b) (JsString a) \<and>
   similarity (JsString (ascii ''hello'')) (JsString (ascii ''hallo'')) = Inr (Num 80)"
proof (intro conjI impI)
  assume ne: "a \<noteq> [] \<or> b \<noteq> []"
  define d where "d = levenshteinDistance a b"
  define m where "m = max (length a) (length b)"
  define k where "k = \<lfloor>round_double (1 - round_double (of_nat d / of_nat m)) * 100 + 1 / 2\<rfloor>"
  define r where "r = round_double (round_double (of_int k / 100) * 100)"
  have m: "0 < m" using ne by (auto simp add: m_def less_max_iff_disj)
  have d: "d \<le> m" unfolding d_def m_def by (rule levenshteinDistance_le)
  note st = similarity_steps [OF m d, folded k_def, folded r_def]
  have "similarity (JsString a) (JsString b) = Inr (Num r)"
    using st(1) by (simp add: similarity_def validateString_def Let_def d_def m_def)
  moreover have "\<bar>r - of_int k\<bar> \<le> 3 / 10 ^ 14"
    unfolding r_def using st(2,3) by (rule times_100_close)
  ultimately show "\<exists>r k. similarity (JsString a) (JsString b) = Inr (Num r) \<and> 0 \<le> r \<and> r \<le> 100 \<and>
         k = \<lfloor>round_double (1 - round_double (of_nat (levenshteinDistance a b) /
                                               of_nat (max (length a) (length b)))) * 100 + 1 / 2\<rfloor> \<and>
         0 \<le> k \<and> k \<le> 100 \<and>
         r = round_double (round_double (of_int k / 100) * 100) \<and>
         \<bar>r - of_int k\<bar> \<le> 3 / 10 ^ 14"
    using st(2,3,4,5) unfolding k_def r_def d_def m_def by blast
next
  show "similarity (JsString a) (JsString b) = similarity (JsString b) (JsString a)"
    by (rule similarity_sym)
next
  show "similarity (JsString (ascii ''hello'')) (JsString (ascii ''hallo'')) = Inr (Num 80)"
    by (rule similarity_hello_hallo)
qed

text \<open>
  C3 fails on the code, which has no case for an empty pair and no final rounding. For
  two empty strings the division is 0 / 0 and similarity is NaN, not 100 and not in
  [0, 100]. For the strings \<open>abcdefg\<close> and \<open>a\<close> (distance 6, ratio 1 - 6/7, written
  0.14) it is 0.14 * 100 = 14.000000000000002, strictly between 14 and 15 and so no
  integer.
\<close>

theorem similarity_nan_and_fraction:
  "similarity (JsString []) (JsString []) = Inr NaN \<and>
   similarity (JsString (ascii ''abcdefg'')) (JsString (ascii ''a'')) =
     Inr (Num (7881299347898369 / 562949953421312)) \<and>
   (14::rat) < 7881299347898369 / 562949953421312 \<and>
   (7881299347898369 / 562949953421312 :: rat) < 15"
  using similarity_empty similarity_seventh by simp

section \<open>Properties of slugify\<close>

text \<open>
  The two examples of C4 and the stop-word example of the specification, which the code
  satisfies.
\<close>

lemma slugify_examples:
  "slugify lower (JsString (ascii ''Hello World''))
     \<lparr>slug_lowercase = None, slug_separator = Some 0x5F, slug_removeStopWords = None\<rparr>
     = Inr (ascii ''hello_world'')"
  "slugify lower (JsString (ascii ''Hello & World!''))
     \<lparr>slug_lowercase = None, slug_separator = None, slug_removeStopWords = None\<rparr>
     = Inr (ascii ''hello-world'')"
  "slugify lower (JsString (ascii ''The Quick Brown Fox''))
     \<lparr>slug_lowercase = None, slug_separator = None, slug_removeStopWords = Some True\<rparr>
     = Inr (ascii ''quick-brown-fox'')"
  by (simp_all add: slugify_def validateString_def ascii_def toLowerCase_def lower_ascii_def
      is_word_def is_alnum_def is_space_def collapse_and_strip_def separator_pattern_def
      strip_ends_def stopWords_def Let_def)

text \<open>
  C4 fails on the code: with the separator \<open>.\<close> the interpolated pattern \<open>.+\<close>
  swallows the whole slug and the result is the empty string, not \<open>hello.world\<close>; with
  the separators \<open>(\<close> and \<open>*\<close> the interpolated pattern is malformed and slugify fails
  with a SyntaxError.
\<close>

theorem slugify_special_separator:
  "slugify lower (JsString (ascii ''Hello World''))
     \<lparr>slug_lowercase = None, slug_separator = Some 0x2E, slug_removeStopWords = None\<rparr>
     = Inr [] \<and>
   slugify lower (JsString (ascii ''Hello World''))
     \<lparr>slug_lowercase = None, slug_separator = Some 0x28, slug_removeStopWords = None\<rparr>
     = Inl SyntaxError \<and>
   slugify lower (JsString (ascii ''Hello World''))
     \<lparr>slug_lowercase = None, slug_separator = Some 0x2A, slug_removeStopWords = None\<rparr>
     = Inl SyntaxError"
  by (simp add: slugify_def validateString_def ascii_def toLowerCase_def lower_ascii_def
      is_word_def is_alnum_def is_space_def collapse_and_strip_def separator_pattern_def
      strip_ends_def is_line_terminator_def Let_def)

end
